theory Spec2Isabelle
  imports Main "HOL-Library.AList"
begin

section \<open>Host values and objects\<close>

text \<open>
  The module \<^verbatim>\<open>signals.mjs\<close> keeps its bookkeeping in module-level variables and
  works on JavaScript objects, proxies and closures. The embedding makes all of it
  explicit: every identity is a number, every module-level variable is a field of the
  record \<open>state\<close>, and every function of the module is a function on that record.

  What the host model covers. A property key is a string or a symbol. A raw object has
  its own properties, which are writable, configurable and enumerable data properties,
  and a prototype chain, flattened into the list of the properties it makes visible; the
  objects of the chain are not reachable by the program, and \<^verbatim>\<open>Object.prototype\<close>
  is as the language defines it. A program that gives an object a new prototype leaves
  the model (outcome \<open>Unmodelled\<close>). Numbers are the integers and \<^verbatim>\<open>NaN\<close>; the
  module compares values and never computes with them. A proxy's target is a raw
  object, and a signal is accessed on the proxy itself, so that the receiver of a
  \<^verbatim>\<open>get\<close> or \<^verbatim>\<open>set\<close> is that proxy.
\<close>

datatype pname = Name string | Symbol nat

type_synonym addr = nat
type_synonym fnid = nat

text \<open>A proxy never changes its target, and a closure never changes the bindings it
  captured, so both carry them in their identity: a proxy is its target with a serial
  number, and the closure \<^verbatim>\<open>reactor\<close> is a serial number with the \<^verbatim>\<open>fn\<close> and the
  \<^verbatim>\<open>connectedSignal\<close> of the call of \<^verbatim>\<open>update\<close> that built it.\<close>

datatype pid = Proxy (target_of: addr) (proxy_serial: nat)

datatype rid = Closure (closure_serial: nat) (closure_fn: fnid) (closure_signal: pid)

text \<open>\<open>VHost n\<close> is what reading the member \<open>n\<close> of \<^verbatim>\<open>Object.prototype\<close> gives:
  the built-in function of that name, or, for the accessor \<^verbatim>\<open>__proto__\<close>, the
  prototype object. A program can hold such an object and compare it, not look into
  it.\<close>

datatype val =
    VUndef
  | VBool bool
  | VNum int
  | VNaN
  | VStr string
  | VObj addr
  | VSig pid
  | VHost string

text \<open>\<^verbatim>\<open>a !== b\<close> is \<open>\<not> strict_eq a b\<close>: identity on references, value equality on
  primitives, and \<^verbatim>\<open>NaN\<close> differs from itself.\<close>

fun strict_eq :: "val \<Rightarrow> val \<Rightarrow> bool" where
  "strict_eq VNaN _ = False"
| "strict_eq _ VNaN = False"
| "strict_eq a b = (a = b)"

fun ToBoolean :: "val \<Rightarrow> bool" where
  "ToBoolean VUndef = False"
| "ToBoolean (VBool b) = b"
| "ToBoolean (VNum n) = (n \<noteq> 0)"
| "ToBoolean VNaN = False"
| "ToBoolean (VStr s) = (s \<noteq> [])"
| "ToBoolean (VObj a) = True"
| "ToBoolean (VSig s) = True"
| "ToBoolean (VHost n) = True"

fun is_object :: "val \<Rightarrow> bool" where
  "is_object (VObj a) = True"
| "is_object (VSig s) = True"
| "is_object (VHost n) = True"
| "is_object _ = False"

text \<open>The members of \<^verbatim>\<open>Object.prototype\<close>, each with the number of elements that
  \<^verbatim>\<open>Array.from\<close> makes of it: the \<^verbatim>\<open>length\<close> of the function, and 0 for the
  prototype object that \<^verbatim>\<open>__proto__\<close> reads, which has no \<^verbatim>\<open>length\<close>. No member
  has a symbol as its key.\<close>

definition Object_prototype_members :: "(string \<times> nat) list" where
  "Object_prototype_members =
     [(''constructor'', 1), (''__defineGetter__'', 2), (''__defineSetter__'', 2),
      (''hasOwnProperty'', 1), (''__lookupGetter__'', 1), (''__lookupSetter__'', 1),
      (''isPrototypeOf'', 1), (''propertyIsEnumerable'', 1), (''toString'', 0),
      (''valueOf'', 0), (''__proto__'', 0), (''toLocaleString'', 0)]"

fun inherited_length :: "pname \<Rightarrow> nat option" where
  "inherited_length (Name n) = map_of Object_prototype_members n"
| "inherited_length (Symbol k) = None"

definition Object_prototype :: "(pname \<times> val) list" where
  "Object_prototype = map (\<lambda>m. (Name (fst m), VHost (fst m))) Object_prototype_members"

text \<open>A raw object: its own properties in the order of their creation, and the
  properties its prototype chain makes visible. \<open>plain_object\<close> is an object
  literal, whose prototype is \<^verbatim>\<open>Object.prototype\<close>.\<close>

record jsobj =
  own :: "(pname \<times> val) list"
  proto :: "(pname \<times> val) list"

definition plain_object :: "(pname \<times> val) list \<Rightarrow> jsobj" where
  "plain_object props = \<lparr>own = props, proto = Object_prototype\<rparr>"

text \<open>\<^verbatim>\<open>target[property]\<close>: the own property, else the inherited one, else
  \<^verbatim>\<open>undefined\<close>.\<close>

definition getProp :: "jsobj \<Rightarrow> pname \<Rightarrow> val" where
  "getProp ob p =
     (case map_of (own ob) p of
        Some v \<Rightarrow> v
      | None \<Rightarrow> (case map_of (proto ob) p of Some v \<Rightarrow> v | None \<Rightarrow> VUndef))"

text \<open>\<^verbatim>\<open>Object.hasOwn(target, property)\<close> and \<^verbatim>\<open>property in target\<close>.\<close>

definition hasOwn :: "jsobj \<Rightarrow> pname \<Rightarrow> bool" where
  "hasOwn ob p = (map_of (own ob) p \<noteq> None)"

definition hasProperty :: "jsobj \<Rightarrow> pname \<Rightarrow> bool" where
  "hasProperty ob p = (map_of (own ob) p \<noteq> None \<or> map_of (proto ob) p \<noteq> None)"

text \<open>\<^verbatim>\<open>target[property] = value\<close> on a raw object stores an own property. Under
  the name \<^verbatim>\<open>__proto__\<close>, an object that has no own property of that name and
  inherits the accessor of \<^verbatim>\<open>Object.prototype\<close> runs its setter instead: a
  primitive value is ignored, and an object would become the new prototype, which
  the flattened chain cannot follow (\<open>None\<close>).\<close>

definition putProp :: "jsobj \<Rightarrow> pname \<Rightarrow> val \<Rightarrow> jsobj option" where
  "putProp ob p v =
     (if p = Name ''__proto__'' \<and> map_of (own ob) p = None \<and> map_of (proto ob) p \<noteq> None
      then (if is_object v then None else Some ob)
      else Some (ob\<lparr>own := AList.update p v (own ob)\<rparr>))"

text \<open>\<^verbatim>\<open>delete target[property]\<close> on a raw object removes the own property, if
  there is one.\<close>

definition delProp :: "jsobj \<Rightarrow> pname \<Rightarrow> jsobj" where
  "delProp ob p = ob\<lparr>own := AList.delete p (own ob)\<rparr>"

text \<open>The order in which the own property keys of an object are listed: the array
  indices (the canonical numerals below \<open>2^32 - 1\<close>) in ascending order, then the
  other strings in the order of creation, then the symbols in the order of creation.
  \<^verbatim>\<open>Object.keys\<close> lists the string keys only; \<^verbatim>\<open>Object.assign\<close> copies all.\<close>

definition digit :: "char \<Rightarrow> bool" where
  "digit c = (48 \<le> (of_char c :: nat) \<and> (of_char c :: nat) \<le> 57)"

definition numeral_value :: "string \<Rightarrow> nat" where
  "numeral_value s = foldl (\<lambda>n c. 10 * n + ((of_char c :: nat) - 48)) 0 s"

fun array_index :: "pname \<Rightarrow> nat option" where
  "array_index (Name s) =
     (if s \<noteq> [] \<and> list_all digit s \<and> (if hd s = CHR ''0'' then s = ''0'' else True)
         \<and> numeral_value s < 4294967295
      then Some (numeral_value s) else None)"
| "array_index (Symbol k) = None"

fun is_symbol :: "pname \<Rightarrow> bool" where
  "is_symbol (Symbol k) = True"
| "is_symbol (Name s) = False"

definition index_of :: "pname \<Rightarrow> nat" where
  "index_of p = (case array_index p of Some i \<Rightarrow> i | None \<Rightarrow> 0)"

definition OwnPropertyKeys :: "(pname \<times> 'a) list \<Rightarrow> (pname \<times> 'a) list" where
  "OwnPropertyKeys props =
     sort_key (\<lambda>kv. index_of (fst kv)) (filter (\<lambda>kv. array_index (fst kv) \<noteq> None) props)
     @ filter (\<lambda>kv. array_index (fst kv) = None \<and> \<not> is_symbol (fst kv)) props
     @ filter (\<lambda>kv. is_symbol (fst kv)) props"

definition Object_keys :: "(pname \<times> 'a) list \<Rightarrow> pname list" where
  "Object_keys props = map fst (filter (\<lambda>kv. \<not> is_symbol (fst kv)) (OwnPropertyKeys props))"

text \<open>A JavaScript \<^verbatim>\<open>Set\<close> iterates in insertion order and ignores a second
  \<^verbatim>\<open>add\<close> of the same element: a duplicate-free list.\<close>

definition Set_add :: "'a \<Rightarrow> 'a list \<Rightarrow> 'a list" where
  "Set_add x xs = (if x \<in> set xs then xs else xs @ [x])"

definition Set_delete :: "'a \<Rightarrow> 'a list \<Rightarrow> 'a list" where
  "Set_delete x xs = removeAll x xs"

text \<open>The two dictionaries of the module are plain objects \<^verbatim>\<open>{}\<close> whose own
  properties hold sets: \<^verbatim>\<open>dictionary[property]\<close> finds an own property, else the
  member of that name that the object inherits from \<^verbatim>\<open>Object.prototype\<close>, else
  \<^verbatim>\<open>undefined\<close>.\<close>

datatype 'a slot =
    Missing
  | Members "'a list"
  | Inherited nat

definition lookup :: "'a list option \<Rightarrow> pname \<Rightarrow> 'a slot" where
  "lookup own_property property =
     (case own_property of
        Some members \<Rightarrow> Members members
      | None \<Rightarrow> (case inherited_length property of Some n \<Rightarrow> Inherited n | None \<Rightarrow> Missing))"

section \<open>Module state\<close>

datatype error =
    RecursiveInvocation fnid
  | TypeError
  | UserError

text \<open>The log is specification-only: no function of the model reads it. It records
  that a reactor body was entered, that a read was attributed to a reactor, that user
  code wrote to or deleted from a raw object, that a reactor merged a result with the
  given keys into a raw object, and that user code called \<^verbatim>\<open>update\<close>.\<close>

datatype event =
    Ran rid
  | Tracked rid pid pname
  | Wrote addr pname
  | Merged addr "pname list"
  | Called fnid

text \<open>The state: the raw objects with the next free address, the counters that number
  proxies and closures, and the five module-level variables of the source. A
  \<^verbatim>\<open>WeakMap\<close> is a partial map; \<open>listenersMap\<close> gives for a signal the own
  properties of its dictionary, each a \<^verbatim>\<open>Set\<close> of reactors, and \<open>computeMap\<close>
  gives for a reactor the own properties of its dictionary, each a \<^verbatim>\<open>Set\<close> of
  signals, in the order of their creation. The two stacks grow at the end.\<close>

record state =
  heap :: "addr \<Rightarrow> jsobj"
  nobjs :: nat
  nsigs :: nat
  nreactors :: nat
  listenersMap :: "pid \<Rightarrow> (pname \<Rightarrow> rid list option) option"
  computeMap :: "rid \<Rightarrow> (pname \<times> pid list) list option"
  computeStack :: "rid list"
  signals :: "fnid \<Rightarrow> pid option"
  reactStack :: "fnid list"
  trace :: "event list"

definition init :: state where
  "init = \<lparr>heap = (\<lambda>_. plain_object []), nobjs = 0, nsigs = 0,
     nreactors = 0, listenersMap = (\<lambda>_. None),
     computeMap = (\<lambda>_. None), computeStack = [], signals = (\<lambda>_. None),
     reactStack = [], trace = []\<rparr>"

text \<open>The outcome of a call: it returns a value, it throws, the recursion went deeper
  than the fuel allows, or the program left the model.\<close>

datatype 'a res =
    Normal 'a state
  | Raise error state
  | OutOfFuel
  | Unmodelled

fun bind :: "'a res \<Rightarrow> ('a \<Rightarrow> state \<Rightarrow> 'b res) \<Rightarrow> 'b res" where
  "bind (Normal x st) f = f x st"
| "bind (Raise e st) f = Raise e st"
| "bind OutOfFuel f = OutOfFuel"
| "bind Unmodelled f = Unmodelled"

text \<open>The state a call ends in, the value it returns and the error it throws.\<close>

fun final :: "'a res \<Rightarrow> state option" where
  "final (Normal x st) = Some st"
| "final (Raise e st) = Some st"
| "final OutOfFuel = None"
| "final Unmodelled = None"

fun returned :: "'a res \<Rightarrow> 'a option" where
  "returned (Normal x st) = Some x"
| "returned (Raise e st) = None"
| "returned OutOfFuel = None"
| "returned Unmodelled = None"

fun raised :: "'a res \<Rightarrow> error option" where
  "raised (Normal x st) = None"
| "raised (Raise e st) = Some e"
| "raised OutOfFuel = None"
| "raised Unmodelled = None"

text \<open>A loop over a list, as \<^verbatim>\<open>forEach\<close> and \<^verbatim>\<open>for ... of\<close> run it: the first
  call that throws ends it.\<close>

fun for_each :: "('a \<Rightarrow> state \<Rightarrow> unit res) \<Rightarrow> 'a list \<Rightarrow> state \<Rightarrow> unit res" where
  "for_each f [] st = Normal () st"
| "for_each f (x # xs) st = bind (f x st) (\<lambda>_ st'. for_each f xs st')"

section \<open>The listener graph\<close>

text \<open>Three updates of the state that the functions below share: an entry of the log,
  and the store and the removal of a property of a raw object.\<close>

definition log_event :: "event \<Rightarrow> state \<Rightarrow> state" where
  "log_event e st = st\<lparr>trace := trace st @ [e]\<rparr>"

definition store :: "addr \<Rightarrow> pname \<Rightarrow> val \<Rightarrow> state \<Rightarrow> state option" where
  "store a p v st =
     (case putProp (heap st a) p v of
        None \<Rightarrow> None
      | Some ob \<Rightarrow> Some (st\<lparr>heap := (heap st)(a := ob)\<rparr>))"

definition remove :: "addr \<Rightarrow> pname \<Rightarrow> state \<Rightarrow> state" where
  "remove a p st = st\<lparr>heap := (heap st)(a := delProp (heap st a) p)\<rparr>"

text \<open>\<^verbatim>\<open>getListeners(self, property)\<close>. A receiver is a proxy or \<^verbatim>\<open>undefined\<close>
  (\<open>None\<close>); a \<^verbatim>\<open>WeakMap\<close> has no entry for \<^verbatim>\<open>undefined\<close>, and
  \<^verbatim>\<open>listeners?.[property]\<close> is \<^verbatim>\<open>undefined\<close> when there is no dictionary.\<close>

definition getListeners :: "state \<Rightarrow> pid option \<Rightarrow> pname \<Rightarrow> rid slot" where
  "getListeners st self property =
     (case self of
        None \<Rightarrow> Missing
      | Some s \<Rightarrow>
          (case listenersMap st s of
             None \<Rightarrow> Missing
           | Some listeners \<Rightarrow> lookup (listeners property) property))"

text \<open>\<^verbatim>\<open>setListeners(self, property, compute)\<close>. With \<^verbatim>\<open>undefined\<close> as receiver,
  \<^verbatim>\<open>listenersMap.set(self, {})\<close> throws a TypeError (invalid WeakMap key). Under a
  name that the dictionary inherits, \<^verbatim>\<open>listeners[property]\<close> is truthy, no
  \<^verbatim>\<open>Set\<close> is made, and the member has no method \<^verbatim>\<open>add\<close>: the call throws a
  TypeError, after line 71 has given the signal its dictionary, and likewise for the
  dictionary of the reactor, after the reactor has been added to the listeners.\<close>

fun members :: "'a slot \<Rightarrow> 'a list" where
  "members Missing = []"
| "members (Members xs) = xs"
| "members (Inherited n) = []"

fun inherited :: "'a slot \<Rightarrow> bool" where
  "inherited (Inherited n) = True"
| "inherited Missing = False"
| "inherited (Members xs) = False"

definition setListeners :: "state \<Rightarrow> pid option \<Rightarrow> pname \<Rightarrow> rid \<Rightarrow> unit res" where
  "setListeners st self property compute =
     (case self of
        None \<Rightarrow> Raise TypeError st
      | Some s \<Rightarrow>
          let listeners = (case listenersMap st s of None \<Rightarrow> Map.empty | Some l \<Rightarrow> l);
              st1 = st\<lparr>listenersMap := (listenersMap st)(s \<mapsto> listeners)\<rparr>;
              found = lookup (listeners property) property
          in if inherited found then Raise TypeError st1
             else
               let st2 = st1\<lparr>listenersMap :=
                       (listenersMap st1)(s \<mapsto> listeners(property \<mapsto> Set_add compute (members found)))\<rparr>;
                   connectedSignals = (case computeMap st2 compute of None \<Rightarrow> [] | Some c \<Rightarrow> c);
                   st3 = st2\<lparr>computeMap := (computeMap st2)(compute \<mapsto> connectedSignals)\<rparr>;
                   found' = lookup (map_of connectedSignals property) property
               in if inherited found' then Raise TypeError st3
                  else Normal ()
                    (st3\<lparr>computeMap := (computeMap st3)(compute \<mapsto>
                       AList.update property (Set_add s (members found')) connectedSignals)\<rparr>))"

text \<open>\<^verbatim>\<open>clearListeners(compute)\<close>: for every string key of the reactor's dictionary,
  as \<^verbatim>\<open>Object.keys\<close> lists them, and every signal in the set under that key,
  delete the reactor from the set of listeners that the signal has under that key. The
  properties of the reactor's dictionary that have a symbol as key are not visited, and
  the dictionary itself is not touched. \<open>unlisten\<close> is the body of the inner
  loop: when \<^verbatim>\<open>listeners?.[property]\<close> is an inherited member, it is truthy and
  has no method \<^verbatim>\<open>delete\<close>.\<close>

definition unlisten :: "rid \<Rightarrow> pname \<Rightarrow> pid \<Rightarrow> state \<Rightarrow> unit res" where
  "unlisten compute property s st =
     (case listenersMap st s of
        None \<Rightarrow> Normal () st
      | Some listeners \<Rightarrow>
          (case lookup (listeners property) property of
             Missing \<Rightarrow> Normal () st
           | Members lset \<Rightarrow>
               Normal () (st\<lparr>listenersMap :=
                 (listenersMap st)(s \<mapsto> listeners(property \<mapsto> Set_delete compute lset))\<rparr>)
           | Inherited n \<Rightarrow> Raise TypeError st))"

definition clearListeners :: "state \<Rightarrow> rid \<Rightarrow> unit res" where
  "clearListeners st compute =
     (case computeMap st compute of
        None \<Rightarrow> Normal () st
      | Some connectedSignals \<Rightarrow>
          for_each
            (\<lambda>property. for_each (unlisten compute property)
               (members (lookup (map_of connectedSignals property) property)))
            (Object_keys connectedSignals) st)"

text \<open>\<^verbatim>\<open>notifyGet(self, property)\<close>: the top of \<open>computeStack\<close> is its last
  element.\<close>

definition notifyGet :: "state \<Rightarrow> pid option \<Rightarrow> pname \<Rightarrow> unit res" where
  "notifyGet st self property =
     (case computeStack st of
        [] \<Rightarrow> Normal () st
      | _ # _ \<Rightarrow>
          (let currentCompute = last (computeStack st) in
           bind (setListeners st self property currentCompute)
             (\<lambda>_ st'. case self of
                 None \<Rightarrow> Normal () st'
               | Some s \<Rightarrow> Normal () (log_event (Tracked currentCompute s property) st'))))"

text \<open>\<^verbatim>\<open>notifySet(self, property)\<close> calls every listener of a snapshot of the set;
  \<open>run\<close> is the call of a reactor closure. Of an inherited member,
  \<^verbatim>\<open>Array.from\<close> makes as many \<^verbatim>\<open>undefined\<close> as its length says, and calling
  the first throws a TypeError.\<close>

definition notifySet :: "(rid \<Rightarrow> state \<Rightarrow> unit res) \<Rightarrow> state \<Rightarrow> pid option \<Rightarrow> pname \<Rightarrow> unit res" where
  "notifySet run st self property =
     (case getListeners st self property of
        Missing \<Rightarrow> Normal () st
      | Members listeners \<Rightarrow> for_each run listeners st
      | Inherited n \<Rightarrow> (if n = 0 then Normal () st else Raise TypeError st))"

section \<open>The proxy handler\<close>

definition signalHandler_get :: "state \<Rightarrow> addr \<Rightarrow> pname \<Rightarrow> pid option \<Rightarrow> val res" where
  "signalHandler_get st target property receiver =
     bind (notifyGet st receiver property)
       (\<lambda>_ st'. Normal (getProp (heap st' target) property) st')"

definition signalHandler_set ::
  "(rid \<Rightarrow> state \<Rightarrow> unit res) \<Rightarrow> state \<Rightarrow> addr \<Rightarrow> pname \<Rightarrow> val \<Rightarrow> pid option \<Rightarrow> val res" where
  "signalHandler_set run st target property v receiver =
     (if \<not> strict_eq (getProp (heap st target) property) v then
        (case store target property v st of
           None \<Rightarrow> Unmodelled
         | Some st1 \<Rightarrow>
             bind (notifySet run st1 receiver property) (\<lambda>_ st'. Normal (VBool True) st'))
      else Normal (VBool True) st)"

definition signalHandler_has :: "state \<Rightarrow> addr \<Rightarrow> pname \<Rightarrow> pid option \<Rightarrow> val res" where
  "signalHandler_has st target property receiver =
     bind (notifyGet st receiver property)
       (\<lambda>_ st'. Normal (VBool (hasOwn (heap st' target) property)) st')"

definition signalHandler_deleteProperty ::
  "(rid \<Rightarrow> state \<Rightarrow> unit res) \<Rightarrow> state \<Rightarrow> addr \<Rightarrow> pname \<Rightarrow> pid option \<Rightarrow> val res" where
  "signalHandler_deleteProperty run st target property receiver =
     (if getProp (heap st target) property \<noteq> VUndef then
        bind (notifySet run (remove target property st) receiver property)
          (\<lambda>_ st'. Normal VUndef st')
      else Normal VUndef st)"

text \<open>\<^verbatim>\<open>signal(v)\<close>: a new proxy over the raw object \<open>v\<close>.\<close>

definition signal :: "state \<Rightarrow> addr \<Rightarrow> pid \<times> state" where
  "signal st v = (Proxy v (nsigs st), st\<lparr>nsigs := Suc (nsigs st)\<rparr>)"

text \<open>A new raw object, and \<^verbatim>\<open>signal(...)\<close> over one.\<close>

definition new_object :: "state \<Rightarrow> jsobj \<Rightarrow> addr \<times> state" where
  "new_object st ob =
     (nobjs st, st\<lparr>heap := (heap st)(nobjs st := ob), nobjs := Suc (nobjs st)\<rparr>)"

definition signal_of :: "state \<Rightarrow> jsobj \<Rightarrow> pid \<times> state" where
  "signal_of st ob = (let (a, st') = new_object st ob in signal st' a)"

subsection \<open>How the host dispatches to the handler\<close>

text \<open>A proxy passes the receiver to its \<^verbatim>\<open>get\<close> and \<^verbatim>\<open>set\<close> traps only; the
  \<^verbatim>\<open>has\<close> and \<^verbatim>\<open>deleteProperty\<close> traps are called with the target and the
  property, so that the handler's third parameter is \<^verbatim>\<open>undefined\<close> there. The
  host turns the result of the \<^verbatim>\<open>set\<close>, \<^verbatim>\<open>has\<close> and \<^verbatim>\<open>deleteProperty\<close> traps
  into a boolean.\<close>

definition Proxy_get :: "state \<Rightarrow> pid \<Rightarrow> pname \<Rightarrow> val res" where
  "Proxy_get st s p = signalHandler_get st (target_of s) p (Some s)"

definition Proxy_set :: "(rid \<Rightarrow> state \<Rightarrow> unit res) \<Rightarrow> state \<Rightarrow> pid \<Rightarrow> pname \<Rightarrow> val \<Rightarrow> bool res" where
  "Proxy_set run st s p v =
     bind (signalHandler_set run st (target_of s) p v (Some s))
       (\<lambda>r st'. Normal (ToBoolean r) st')"

definition Proxy_has :: "state \<Rightarrow> pid \<Rightarrow> pname \<Rightarrow> bool res" where
  "Proxy_has st s p =
     bind (signalHandler_has st (target_of s) p None)
       (\<lambda>r st'. Normal (ToBoolean r) st')"

definition Proxy_delete :: "(rid \<Rightarrow> state \<Rightarrow> unit res) \<Rightarrow> state \<Rightarrow> pid \<Rightarrow> pname \<Rightarrow> bool res" where
  "Proxy_delete run st s p =
     bind (signalHandler_deleteProperty run st (target_of s) p None)
       (\<lambda>r st'. Normal (ToBoolean r) st')"

section \<open>User computations\<close>

text \<open>The function passed to \<^verbatim>\<open>update\<close>, and the code that calls the module, are
  trees of the operations they perform on signals and raw objects; each continuation
  receives what the operation returned. \<open>Return props\<close> returns a new object that
  was given the properties \<open>props\<close> one after the other; the flag of
  \<open>SigDelete\<close> says whether the \<^verbatim>\<open>delete\<close> expression stands in strict code,
  where a false result of the trap is a TypeError. User code has no handler for
  errors: what is thrown reaches the caller.\<close>

datatype comp =
    Return "(pname \<times> val) list"
  | Throw
  | SigGet pid pname "val \<Rightarrow> comp"
  | SigSet pid pname val comp
  | SigHas pid pname "bool \<Rightarrow> comp"
  | SigDelete bool pid pname "bool \<Rightarrow> comp"
  | CallUpdate fnid "pid \<Rightarrow> comp"
  | RawGet addr pname "val \<Rightarrow> comp"
  | RawSet addr pname val comp

section \<open>update and the reactor\<close>

text \<open>\<^verbatim>\<open>update(fn)\<close> up to the call of the reactor closure it builds: the guard, the
  push on \<open>reactStack\<close> (which the source never pops), the memoised output signal
  and the new closure.\<close>

definition update_prepare :: "state \<Rightarrow> fnid \<Rightarrow> rid res" where
  "update_prepare st fn =
     (if fn \<in> set (reactStack st) then Raise (RecursiveInvocation fn) st
      else
        let st1 = st\<lparr>reactStack := reactStack st @ [fn]\<rparr>;
            (connectedSignal, st2) =
              (case signals st1 fn of
                 Some s \<Rightarrow> (s, st1)
               | None \<Rightarrow>
                   (let (s, st') = signal_of st1 (plain_object [])
                    in (s, st'\<lparr>signals := (signals st')(fn \<mapsto> s)\<rparr>))
              )
        in Normal (Closure (nreactors st2) fn connectedSignal)
             (st2\<lparr>nreactors := Suc (nreactors st2)\<rparr>))"

definition update_with :: "(rid \<Rightarrow> state \<Rightarrow> unit res) \<Rightarrow> state \<Rightarrow> fnid \<Rightarrow> pid res" where
  "update_with run st fn =
     bind (update_prepare st fn)
       (\<lambda>reactor st'. bind (run reactor st') (\<lambda>_ st''. Normal (closure_signal reactor) st''))"

text \<open>The own properties of the object that \<open>Return props\<close> returns: a key given
  twice keeps its first place and its last value.\<close>

definition result_object :: "(pname \<times> val) list \<Rightarrow> (pname \<times> val) list" where
  "result_object props = foldl (\<lambda>ob kv. AList.update (fst kv) (snd kv) ob) [] props"

text \<open>\<^verbatim>\<open>Object.assign(connectedSignal, result)\<close>: one \<^verbatim>\<open>[[Set]]\<close> on the proxy per
  own property of the result, in the order of its keys.\<close>

fun assign_each ::
  "(rid \<Rightarrow> state \<Rightarrow> unit res) \<Rightarrow> pid \<Rightarrow> (pname \<times> val) list \<Rightarrow> state \<Rightarrow> unit res" where
  "assign_each run s [] st = Normal () st"
| "assign_each run s ((k, v) # kvs) st =
     bind (Proxy_set run st s k v)
       (\<lambda>ok st'. if ok then assign_each run s kvs st' else Raise TypeError st')"

definition Object_assign ::
  "(rid \<Rightarrow> state \<Rightarrow> unit res) \<Rightarrow> pid \<Rightarrow> (pname \<times> val) list \<Rightarrow> state \<Rightarrow> unit res" where
  "Object_assign run s props st = assign_each run s (OwnPropertyKeys (result_object props)) st"

text \<open>User code. A write to a raw object that would change its prototype leaves the
  model.\<close>

primrec exec :: "(rid \<Rightarrow> state \<Rightarrow> unit res) \<Rightarrow> comp \<Rightarrow> state \<Rightarrow> (pname \<times> val) list res" where
  "exec run (Return props) st = Normal props st"
| "exec run Throw st = Raise UserError st"
| "exec run (SigGet s p k) st = bind (Proxy_get st s p) (\<lambda>v st'. exec run (k v) st')"
| "exec run (SigSet s p v c) st =
     bind (Proxy_set run (log_event (Wrote (target_of s) p) st) s p v)
       (\<lambda>ok st'. exec run c st')"
| "exec run (SigHas s p k) st = bind (Proxy_has st s p) (\<lambda>b st'. exec run (k b) st')"
| "exec run (SigDelete strict s p k) st =
     bind (Proxy_delete run (log_event (Wrote (target_of s) p) st) s p)
       (\<lambda>ok st'. if strict \<and> \<not> ok then Raise TypeError st' else exec run (k ok) st')"
| "exec run (CallUpdate fn k) st =
     bind (update_with run (log_event (Called fn) st) fn) (\<lambda>s st'. exec run (k s) st')"
| "exec run (RawGet a p k) st = exec run (k (getProp (heap st a) p)) st"
| "exec run (RawSet a p v c) st =
     (case store a p v (log_event (Wrote a p) st) of
        None \<Rightarrow> Unmodelled
      | Some st' \<Rightarrow> exec run c st')"

text \<open>The closure \<^verbatim>\<open>reactor\<close> built by \<^verbatim>\<open>update\<close>: \<open>enter\<close> is what it does before
  it calls \<^verbatim>\<open>fn\<close>, \<open>leave\<close> is the \<^verbatim>\<open>computeStack.pop()\<close> after \<^verbatim>\<open>fn\<close> has
  returned. The fuel bounds the depth of nested reactor calls; \<open>P\<close> gives the body of
  every user function.\<close>

definition enter :: "rid \<Rightarrow> state \<Rightarrow> unit res" where
  "enter r st =
     bind (clearListeners st r)
       (\<lambda>_ st1. Normal () (log_event (Ran r) (st1\<lparr>computeStack := computeStack st1 @ [r]\<rparr>)))"

definition leave :: "rid \<Rightarrow> (pname \<times> val) list \<Rightarrow> state \<Rightarrow> state" where
  "leave r result st =
     log_event (Merged (target_of (closure_signal r)) (map fst result))
       (st\<lparr>computeStack := butlast (computeStack st)\<rparr>)"

primrec reactor :: "nat \<Rightarrow> (fnid \<Rightarrow> comp) \<Rightarrow> rid \<Rightarrow> state \<Rightarrow> unit res" where
  "reactor 0 P r st = OutOfFuel"
| "reactor (Suc n) P r st =
     bind (enter r st)
       (\<lambda>_ st1. bind (exec (reactor n P) (P (closure_fn r)) st1)
          (\<lambda>result st'. Object_assign (reactor n P) (closure_signal r) result (leave r result st')))"

definition update :: "nat \<Rightarrow> (fnid \<Rightarrow> comp) \<Rightarrow> state \<Rightarrow> fnid \<Rightarrow> pid res" where
  "update n P st fn = update_with (reactor n P) st fn"

text \<open>Code of the caller, run outside every reactor.\<close>

definition run_script :: "nat \<Rightarrow> (fnid \<Rightarrow> comp) \<Rightarrow> comp \<Rightarrow> state \<Rightarrow> (pname \<times> val) list res" where
  "run_script n P c st = exec (reactor n P) c st"

section \<open>Programs and states used as concrete inputs\<close>

text \<open>A user function that reads nothing and returns \<^verbatim>\<open>{}\<close>, one that throws, and
  a caller that registers the same function twice.\<close>

definition returns_empty :: "fnid \<Rightarrow> comp" where
  "returns_empty fn = Return []"

definition always_throws :: "fnid \<Rightarrow> comp" where
  "always_throws fn = Throw"

definition update_once :: comp where
  "update_once = CallUpdate 0 (\<lambda>out. Return [(Name ''out'', VSig out)])"

definition update_twice :: comp where
  "update_twice =
     CallUpdate 0 (\<lambda>first. CallUpdate 0 (\<lambda>second.
       Return [(Name ''first'', VSig first), (Name ''second'', VSig second)]))"

text \<open>The scenario of the specification, with a function that copies instead of
  computing: \<^verbatim>\<open>counter = signal({n: 0})\<close> and
  \<^verbatim>\<open>copy = update(() => ({seen: counter.n}))\<close>; the caller reads
  \<^verbatim>\<open>copy.seen\<close>, sets \<^verbatim>\<open>counter.n = 5\<close> and reads \<^verbatim>\<open>copy.seen\<close> again.\<close>

definition counter_signal :: state where
  "counter_signal = snd (signal_of init (plain_object [(Name ''n'', VNum 0)]))"

definition copies_counter :: "fnid \<Rightarrow> comp" where
  "copies_counter fn = SigGet (Proxy 0 0) (Name ''n'') (\<lambda>v. Return [(Name ''seen'', v)])"

definition read_set_read :: comp where
  "read_set_read =
     CallUpdate 0 (\<lambda>copy.
       SigGet copy (Name ''seen'') (\<lambda>before.
         SigSet (Proxy 0 0) (Name ''n'') (VNum 5)
           (SigGet copy (Name ''seen'') (\<lambda>after.
              Return [(Name ''before'', before), (Name ''after'', after)]))))"

section \<open>The two indexes of the listener graph\<close>

text \<open>The forward-edge set of a signal property and the back-edge set of a reactor, as
  the two maps hold them; the invariant of the specification (the indexes are mutual
  inverses) and its half that the source maintains (every forward edge has its back
  edge). In every state the module reaches, no dictionary has an own property under a
  name it inherits (\<open>plain\<close>). \<open>registered\<close> is the state after one edge has been
  registered in the initial state.\<close>

definition own_listeners :: "state \<Rightarrow> pid \<Rightarrow> pname \<Rightarrow> rid list option" where
  "own_listeners st s p = (case listenersMap st s of None \<Rightarrow> None | Some listeners \<Rightarrow> listeners p)"

definition own_signals :: "state \<Rightarrow> rid \<Rightarrow> pname \<Rightarrow> pid list option" where
  "own_signals st r p =
     (case computeMap st r of None \<Rightarrow> None | Some connectedSignals \<Rightarrow> map_of connectedSignals p)"

definition listeners_of :: "state \<Rightarrow> pid \<Rightarrow> pname \<Rightarrow> rid list" where
  "listeners_of st s p = (case own_listeners st s p of None \<Rightarrow> [] | Some ls \<Rightarrow> ls)"

definition back_of :: "state \<Rightarrow> rid \<Rightarrow> pname \<Rightarrow> pid list" where
  "back_of st r p = (case own_signals st r p of None \<Rightarrow> [] | Some ss \<Rightarrow> ss)"

definition forward_in_back :: "state \<Rightarrow> bool" where
  "forward_in_back st = (\<forall>s p r. r \<in> set (listeners_of st s p) \<longrightarrow> s \<in> set (back_of st r p))"

definition mutual_inverses :: "state \<Rightarrow> bool" where
  "mutual_inverses st = (\<forall>s p r. r \<in> set (listeners_of st s p) \<longleftrightarrow> s \<in> set (back_of st r p))"

definition plain :: "state \<Rightarrow> bool" where
  "plain st =
     ((\<forall>s p. own_listeners st s p \<noteq> None \<longrightarrow> inherited_length p = None)
      \<and> (\<forall>r p. own_signals st r p \<noteq> None \<longrightarrow> inherited_length p = None))"

text \<open>\<open>shrinks c s s'\<close>: between the two states only \<open>listenersMap\<close> has changed,
  no dictionary has gained or lost a property, and no set of listeners has gained a
  member or lost one other than \<open>c\<close>.\<close>

definition shrinks :: "rid \<Rightarrow> state \<Rightarrow> state \<Rightarrow> bool" where
  "shrinks c s s' =
     ((\<exists>lm. s' = s\<lparr>listenersMap := lm\<rparr>)
      \<and> (\<forall>x p. (own_listeners s' x p = None) = (own_listeners s x p = None))
      \<and> (\<forall>x p. set (listeners_of s' x p) \<subseteq> set (listeners_of s x p)
             \<and> set (listeners_of s x p) - {c} \<subseteq> set (listeners_of s' x p)))"



section \<open>The log between two states\<close>

text \<open>\<open>extends s s'\<close>: the log of \<open>s'\<close> continues the log of \<open>s\<close>;
  \<open>since s s'\<close> is what was logged in between.\<close>

definition extends :: "state \<Rightarrow> state \<Rightarrow> bool" where
  "extends s s' = (\<exists>t. trace s' = trace s @ t)"

definition since :: "state \<Rightarrow> state \<Rightarrow> event list" where
  "since s s' = drop (length (trace s)) (trace s')"

text \<open>What was logged during a call, and how often a reactor body was entered during
  it.\<close>

definition log_of :: "state \<Rightarrow> 'a res \<Rightarrow> event list" where
  "log_of st res = (case final res of None \<Rightarrow> [] | Some st' \<Rightarrow> since st st')"

definition runs_during :: "rid \<Rightarrow> state \<Rightarrow> 'a res \<Rightarrow> nat" where
  "runs_during r st res = count_list (log_of st res) (Ran r)"

text \<open>\<open>listeners_after\<close>, \<open>own_after\<close> and \<open>value_after\<close> read the listeners of
  a signal property and a raw object in the state a call ends in.\<close>

definition listeners_after :: "pid \<Rightarrow> pname \<Rightarrow> 'a res \<Rightarrow> rid list option" where
  "listeners_after s p res = map_option (\<lambda>st. listeners_of st s p) (final res)"

definition own_after :: "addr \<Rightarrow> pname \<Rightarrow> 'a res \<Rightarrow> bool option" where
  "own_after a p res = map_option (\<lambda>st. hasOwn (heap st a) p) (final res)"

definition value_after :: "addr \<Rightarrow> pname \<Rightarrow> 'a res \<Rightarrow> val option" where
  "value_after a p res = map_option (\<lambda>st. getProp (heap st a) p) (final res)"

section \<open>Inputs for the propagation of a write\<close>





section \<open>Inputs for the recursion guard\<close>

text \<open>On \<open>counter_signal\<close>, \<open>bump_until_two\<close> reads \<^verbatim>\<open>counter.n\<close> and writes 1
  when it reads 0 and 2 when it reads 1; \<open>calls_itself\<close> calls \<^verbatim>\<open>update\<close> on its own
  function, and \<open>reads_and_calls_itself\<close> does so after it has read
  \<^verbatim>\<open>counter.n\<close>.\<close>

definition bump_until_two :: "fnid \<Rightarrow> comp" where
  "bump_until_two fn =
     SigGet (Proxy 0 0) (Name ''n'')
       (\<lambda>v. if v = VNum 0 then SigSet (Proxy 0 0) (Name ''n'') (VNum 1) (Return [])
             else if v = VNum 1 then SigSet (Proxy 0 0) (Name ''n'') (VNum 2) (Return [])
             else Return [])"

definition calls_itself :: "fnid \<Rightarrow> comp" where
  "calls_itself fn = CallUpdate fn (\<lambda>out. Return [])"

definition reads_and_calls_itself :: "fnid \<Rightarrow> comp" where
  "reads_and_calls_itself fn =
     SigGet (Proxy 0 0) (Name ''n'') (\<lambda>v. CallUpdate fn (\<lambda>out. Return [(Name ''seen'', v)]))"

definition reactStack_grows :: "state \<Rightarrow> state \<Rightarrow> bool" where
  "reactStack_grows s s' = (set (reactStack s) \<subseteq> set (reactStack s'))"

text \<open>\<open>guarded fn s res\<close>: when \<^verbatim>\<open>fn\<close> is on \<open>reactStack\<close> in the state
  \<open>s\<close> and user code calls \<^verbatim>\<open>update(fn)\<close> during the call that \<open>res\<close> is the
  outcome of, that outcome is the recursion error carrying \<^verbatim>\<open>fn\<close>.\<close>

definition guarded :: "fnid \<Rightarrow> state \<Rightarrow> 'a res \<Rightarrow> bool" where
  "guarded fn s res =
     (\<forall>s'. fn \<in> set (reactStack s) \<longrightarrow> final res = Some s' \<longrightarrow> Called fn \<in> set (since s s') \<longrightarrow>
        raised res = Some (RecursiveInvocation fn))"

definition run_guarded :: "fnid \<Rightarrow> (rid \<Rightarrow> state \<Rightarrow> unit res) \<Rightarrow> bool" where
  "run_guarded fn run =
     (\<forall>r s. guarded fn s (run r s)
        \<and> (\<forall>s'. final (run r s) = Some s' \<longrightarrow> extends s s' \<and> reactStack_grows s s'))"

section \<open>Inputs for delete, for the reads and for the pruning of edges\<close>

text \<open>\<^verbatim>\<open>s = signal({a: 1})\<close> with a function that reads \<^verbatim>\<open>s.a\<close>; the caller
  registers it and then deletes \<^verbatim>\<open>s.a\<close>, in strict code and in sloppy code, or
  deletes \<^verbatim>\<open>s.b\<close>, which \<^verbatim>\<open>s\<close> does not have.\<close>

definition holds_a :: state where
  "holds_a = snd (signal_of init (plain_object [(Name ''a'', VNum 1)]))"

definition reads_a :: "fnid \<Rightarrow> comp" where
  "reads_a fn = SigGet (Proxy 0 0) (Name ''a'') (\<lambda>v. Return [(Name ''seen'', v)])"

definition update_then_delete :: "bool \<Rightarrow> pname \<Rightarrow> comp" where
  "update_then_delete strict p =
     CallUpdate 0 (\<lambda>out. SigDelete strict (Proxy 0 0) p (\<lambda>ok. Return [(Name ''ok'', VBool ok)]))"

text \<open>\<^verbatim>\<open>signal({a: undefined})\<close>.\<close>

definition undefined_property :: state where
  "undefined_property = snd (signal_of init (plain_object [(Name ''a'', VUndef)]))"

text \<open>A function that asks whether \<^verbatim>\<open>'a' in s\<close>, and one that reads
  \<^verbatim>\<open>s.toString\<close>.\<close>

definition asks_for_a :: "fnid \<Rightarrow> comp" where
  "asks_for_a fn = SigHas (Proxy 0 0) (Name ''a'') (\<lambda>b. Return [(Name ''found'', VBool b)])"

definition reads_toString :: "fnid \<Rightarrow> comp" where
  "reads_toString fn =
     SigGet (Proxy 0 0) (Name ''toString'') (\<lambda>v. Return [(Name ''method'', v)])"

text \<open>\<^verbatim>\<open>flag = signal({on: true})\<close> and \<^verbatim>\<open>s = signal({[k]: 0, p: 0})\<close>, where
  \<^verbatim>\<open>k\<close> is a symbol. The function reads \<^verbatim>\<open>s[key]\<close> only while \<^verbatim>\<open>flag.on\<close>
  is true; the caller registers it, sets \<^verbatim>\<open>flag.on = false\<close> and then sets
  \<^verbatim>\<open>s[key] = 1\<close>.\<close>

definition flag_and_signal :: state where
  "flag_and_signal =
     snd (signal_of (snd (signal_of init (plain_object [(Name ''on'', VBool True)])))
            (plain_object [(Symbol 0, VNum 0), (Name ''p'', VNum 0)]))"

definition reads_while_on :: "pname \<Rightarrow> fnid \<Rightarrow> comp" where
  "reads_while_on key fn =
     SigGet (Proxy 0 0) (Name ''on'')
       (\<lambda>v. if ToBoolean v then SigGet (Proxy 1 1) key (\<lambda>w. Return []) else Return [])"

definition switch_off_then_write :: "pname \<Rightarrow> comp" where
  "switch_off_then_write key =
     CallUpdate 0 (\<lambda>out.
       SigSet (Proxy 0 0) (Name ''on'') (VBool False)
         (SigSet (Proxy 1 1) key (VNum 1) (Return [])))"

text \<open>The state in which the function has been registered and \<^verbatim>\<open>flag.on = false\<close>
  has been stored, before the listeners of \<^verbatim>\<open>flag.on\<close> are called.\<close>

definition flag_cleared :: "pname \<Rightarrow> state" where
  "flag_cleared key =
     (case run_script 1 (reads_while_on key) update_once flag_and_signal of
        Normal _ st \<Rightarrow> (case store 0 (Name ''on'') (VBool False) st of Some st' \<Rightarrow> st' | None \<Rightarrow> init)
      | _ \<Rightarrow> init)"

section \<open>Preservation of the invariants\<close>

text \<open>\<open>keeps_invariants\<close>: a call preserves that every forward edge has its back
  edge and that the dictionaries are plain.\<close>

definition keeps_invariants :: "state \<Rightarrow> state \<Rightarrow> bool" where
  "keeps_invariants s s' = (forward_in_back s \<and> plain s \<longrightarrow> forward_in_back s' \<and> plain s')"

section \<open>Inputs for objects stored in a signal\<close>








section \<open>Which stores a call may make\<close>

text \<open>An entry of the log touches property \<open>k\<close> of the raw object \<open>a\<close> when it
  records that user code wrote or deleted it, or that a reactor merged a result that has
  the key \<open>k\<close> into \<open>a\<close>. \<open>frame s s'\<close>: between the two states, an own
  property of an object that existed in \<open>s\<close> has changed only if an entry logged in
  between touches it.\<close>

fun touches :: "addr \<Rightarrow> pname \<Rightarrow> event \<Rightarrow> bool" where
  "touches a k (Wrote b q) = (b = a \<and> q = k)"
| "touches a k (Merged b ks) = (b = a \<and> k \<in> set ks)"
| "touches a k (Ran r) = False"
| "touches a k (Tracked r s p) = False"
| "touches a k (Called f) = False"

definition frame :: "state \<Rightarrow> state \<Rightarrow> bool" where
  "frame s s' =
     (extends s s' \<and> nobjs s \<le> nobjs s' \<and>
      (\<forall>a k. a < nobjs s \<longrightarrow> map_of (own (heap s' a)) k \<noteq> map_of (own (heap s a)) k \<longrightarrow>
         (\<exists>e \<in> set (since s s'). touches a k e)))"

text \<open>Inputs for the merge: \<^verbatim>\<open>flag = signal({on: 1})\<close>; the function returns
  \<^verbatim>\<open>{a: 1, b: 2}\<close> while \<^verbatim>\<open>flag.on\<close> is not 0 and \<^verbatim>\<open>{a: 3}\<close> afterwards.
  \<open>flag_off\<close> is the state in which the function has been registered and
  \<^verbatim>\<open>flag.on = 0\<close> has just been stored.\<close>

definition flag_signal :: state where
  "flag_signal = snd (signal_of init (plain_object [(Name ''on'', VNum 1)]))"

definition fewer_keys :: "fnid \<Rightarrow> comp" where
  "fewer_keys fn =
     SigGet (Proxy 0 0) (Name ''on'')
       (\<lambda>v. if v = VNum 0 then Return [(Name ''a'', VNum 3)]
             else Return [(Name ''a'', VNum 1), (Name ''b'', VNum 2)])"

definition flag_off :: state where
  "flag_off =
     (case run_script 1 fewer_keys update_once flag_signal of
        Normal _ st \<Rightarrow> (case store 0 (Name ''on'') (VNum 0) st of Some st' \<Rightarrow> st' | None \<Rightarrow> init)
      | _ \<Rightarrow> init)"

text \<open>A reactor call is balanced when, if it returns, it leaves \<open>computeStack\<close> as
  it found it.\<close>

definition run_balanced :: "(rid \<Rightarrow> state \<Rightarrow> unit res) \<Rightarrow> bool" where
  "run_balanced run = (\<forall>r s s'. run r s = Normal () s' \<longrightarrow> computeStack s' = computeStack s)"

section \<open>Facts that hold of every run\<close>

text \<open>Most properties below are proved the same way: a relation between the state
  before and the state after is reflexive and transitive, every elementary update of the
  state lies in it, and so every call of a reactor, of \<^verbatim>\<open>update\<close> and of user code
  lies in it, whether the call returns or throws. \<open>prims_ok\<close> collects the elementary
  updates outside the merge of a result, \<open>merge_ok\<close> is the merge as a whole.\<close>

definition run_ok :: "(state \<Rightarrow> state \<Rightarrow> bool) \<Rightarrow> (rid \<Rightarrow> state \<Rightarrow> unit res) \<Rightarrow> bool" where
  "run_ok R run = (\<forall>r s s'. final (run r s) = Some s' \<longrightarrow> R s s')"

definition quasi_order :: "(state \<Rightarrow> state \<Rightarrow> bool) \<Rightarrow> bool" where
  "quasi_order R = ((\<forall>s. R s s) \<and> (\<forall>a b c. R a b \<longrightarrow> R b c \<longrightarrow> R a c))"

definition prims_ok :: "(state \<Rightarrow> state \<Rightarrow> bool) \<Rightarrow> bool" where
  "prims_ok R =
     (quasi_order R \<and>
      (\<forall>s recv p s'. final (notifyGet s recv p) = Some s' \<longrightarrow> R s s') \<and>
      (\<forall>s a p. R s (log_event (Wrote a p) s)) \<and>
      (\<forall>s f. R s (log_event (Called f) s)) \<and>
      (\<forall>s a p v s'. store a p v (log_event (Wrote a p) s) = Some s' \<longrightarrow> R s s') \<and>
      (\<forall>s a p. R s (remove a p (log_event (Wrote a p) s))) \<and>
      (\<forall>s f s'. final (update_prepare s f) = Some s' \<longrightarrow> R s s') \<and>
      (\<forall>s r s'. final (enter r s) = Some s' \<longrightarrow> R s s'))"

definition merge_ok :: "(state \<Rightarrow> state \<Rightarrow> bool) \<Rightarrow> bool" where
  "merge_ok R =
     (\<forall>run r kvs s s'. run_ok R run \<longrightarrow>
        final (Object_assign run (closure_signal r) kvs (leave r kvs s)) = Some s' \<longrightarrow> R s s')"

subsection \<open>The generic induction\<close>

lemma final_bindE:
  assumes "final (bind m f) = Some s'"
  obtains (raise) e where "m = Raise e s'"
        | (normal) x s1 where "m = Normal x s1" "final (f x s1) = Some s'"
  using assms by (cases m) auto

lemma bind_NormalE:
  assumes "bind m f = Normal y s'"
  obtains x s1 where "m = Normal x s1" "f x s1 = Normal y s'"
  using assms by (cases m) auto

lemma final_bind_Normal [simp]: "final (bind m (\<lambda>x s. Normal (g x s) s)) = final m"
  by (cases m) auto

lemma raised_bind_Normal [simp]: "raised (bind m (\<lambda>x s. Normal (g x s) s)) = raised m"
  by (cases m) auto

lemma quasi_order_refl: "quasi_order R \<Longrightarrow> R s s"
  by (simp add: quasi_order_def)

lemma quasi_order_trans: "quasi_order R \<Longrightarrow> R a b \<Longrightarrow> R b c \<Longrightarrow> R a c"
  unfolding quasi_order_def by blast

lemma run_okD: "run_ok R run \<Longrightarrow> final (run r s) = Some s' \<Longrightarrow> R s s'"
  unfolding run_ok_def by blast

lemma for_each_rel:
  assumes "quasi_order R" "\<And>x s s'. final (f x s) = Some s' \<Longrightarrow> R s s'"
  shows "final (for_each f xs st) = Some st' \<Longrightarrow> R st st'"
proof (induction xs arbitrary: st)
  case Nil
  then show ?case using assms(1) by (simp add: quasi_order_refl)
next
  case (Cons x xs)
  from Cons.prems have "final (bind (f x st) (\<lambda>_ s. for_each f xs s)) = Some st'" by simp
  then show ?case
  proof (cases rule: final_bindE)
    case (raise e)
    then show ?thesis using assms(2)[of x st st'] by simp
  next
    case (normal y s1)
    then have "R st s1" using assms(2)[of x st s1] by simp
    moreover have "R s1 st'" using Cons.IH normal by simp
    ultimately show ?thesis using quasi_order_trans[OF assms(1)] by blast
  qed
qed

lemma notifySet_rel:
  assumes "quasi_order R" "run_ok R run" "final (notifySet run st recv p) = Some st'"
  shows "R st st'"
proof (cases "getListeners st recv p")
  case Missing
  then show ?thesis using assms(1,3) by (simp add: notifySet_def quasi_order_refl)
next
  case (Members ls)
  then have "final (for_each run ls st) = Some st'" using assms(3) by (simp add: notifySet_def)
  then show ?thesis using for_each_rel[OF assms(1), of run ls st st'] run_okD[OF assms(2)] by blast
next
  case (Inherited n)
  then have "st' = st" using assms(3) by (cases "n = 0") (simp_all add: notifySet_def)
  then show ?thesis using assms(1) by (simp add: quasi_order_refl)
qed

lemma signalHandler_set_rel:
  assumes "quasi_order R" "run_ok R run" "final (signalHandler_set run st t p v recv) = Some st'"
  shows "st' = st \<or> (\<exists>st1. store t p v st = Some st1 \<and> R st1 st')"
proof (cases "strict_eq (getProp (heap st t) p) v")
  case True
  then show ?thesis using assms(3) by (simp add: signalHandler_set_def)
next
  case False
  show ?thesis
  proof (cases "store t p v st")
    case None
    then show ?thesis using assms(3) False by (simp add: signalHandler_set_def)
  next
    case (Some st1)
    then have "final (notifySet run st1 recv p) = Some st'"
      using assms(3) False by (simp add: signalHandler_set_def)
    then show ?thesis using notifySet_rel[OF assms(1,2)] Some by blast
  qed
qed

lemma signalHandler_deleteProperty_rel:
  assumes "quasi_order R" "run_ok R run" "final (signalHandler_deleteProperty run st t p recv) = Some st'"
  shows "st' = st \<or> R (remove t p st) st'"
proof (cases "getProp (heap st t) p = VUndef")
  case True
  then show ?thesis using assms(3) by (simp add: signalHandler_deleteProperty_def)
next
  case False
  then have "final (notifySet run (remove t p st) recv p) = Some st'"
    using assms(3) by (simp add: signalHandler_deleteProperty_def)
  then show ?thesis using notifySet_rel[OF assms(1,2)] by blast
qed

lemma Proxy_set_rel:
  assumes "quasi_order R" "run_ok R run" "final (Proxy_set run st s p v) = Some st'"
  shows "st' = st \<or> (\<exists>st1. store (target_of s) p v st = Some st1 \<and> R st1 st')"
  using assms(3) signalHandler_set_rel[OF assms(1,2)] by (simp add: Proxy_set_def)

lemma Proxy_delete_rel:
  assumes "quasi_order R" "run_ok R run" "final (Proxy_delete run st s p) = Some st'"
  shows "st' = st \<or> R (remove (target_of s) p st) st'"
  using assms(3) signalHandler_deleteProperty_rel[OF assms(1,2)] by (simp add: Proxy_delete_def)

lemma final_Proxy_get: "final (Proxy_get st s p) = final (notifyGet st (Some s) p)"
  by (simp add: Proxy_get_def signalHandler_get_def)

lemma final_Proxy_has: "final (Proxy_has st s p) = final (notifyGet st None p)"
  by (simp add: Proxy_has_def signalHandler_has_def)

lemma prims_okD:
  assumes "prims_ok R"
  shows "quasi_order R"
    and "\<And>s recv p s'. final (notifyGet s recv p) = Some s' \<Longrightarrow> R s s'"
    and "\<And>s a p. R s (log_event (Wrote a p) s)"
    and "\<And>s f. R s (log_event (Called f) s)"
    and "\<And>s a p v s'. store a p v (log_event (Wrote a p) s) = Some s' \<Longrightarrow> R s s'"
    and "\<And>s a p. R s (remove a p (log_event (Wrote a p) s))"
    and "\<And>s f s'. final (update_prepare s f) = Some s' \<Longrightarrow> R s s'"
    and "\<And>s r s'. final (enter r s) = Some s' \<Longrightarrow> R s s'"
  using assms unfolding prims_ok_def by simp_all

lemma update_with_rel:
  assumes "prims_ok R" "run_ok R run" "final (update_with run st f) = Some st'"
  shows "R st st'"
proof -
  have po: "quasi_order R" using assms(1) by (rule prims_okD(1))
  have prep: "\<And>s f s'. final (update_prepare s f) = Some s' \<Longrightarrow> R s s'"
    using assms(1) by (rule prims_okD(7))
  from assms(3) show ?thesis unfolding update_with_def
  proof (cases rule: final_bindE)
    case (raise e)
    then show ?thesis using prep[of st f st'] by simp
  next
    case (normal r s1)
    then have a: "R st s1" using prep[of st f s1] by simp
    from normal(2) have "final (run r s1) = Some st'" by simp
    then have "R s1 st'" using run_okD[OF assms(2)] by blast
    with a show ?thesis using quasi_order_trans[OF po] by blast
  qed
qed

lemma exec_rel:
  assumes "prims_ok R" "run_ok R run"
  shows "final (exec run c st) = Some st' \<Longrightarrow> R st st'"
proof (induction c arbitrary: st)
  case (Return kvs)
  then show ?case using assms(1) by (simp add: prims_ok_def quasi_order_refl)
next
  case Throw
  then show ?case using assms(1) by (simp add: prims_ok_def quasi_order_refl)
next
  case (SigGet s p k)
  have po: "quasi_order R" using assms(1) by (rule prims_okD(1))
  have ng: "\<And>s recv p s'. final (notifyGet s recv p) = Some s' \<Longrightarrow> R s s'"
    using assms(1) by (rule prims_okD(2))
  from SigGet.prems have "final (bind (Proxy_get st s p) (\<lambda>v s'. exec run (k v) s')) = Some st'" by simp
  then show ?case
  proof (cases rule: final_bindE)
    case (raise e)
    then have "final (Proxy_get st s p) = Some st'" by simp
    then show ?thesis using ng by (simp add: final_Proxy_get)
  next
    case (normal x s1)
    then have "final (Proxy_get st s p) = Some s1" by simp
    then have "R st s1" using ng by (simp add: final_Proxy_get)
    moreover have "R s1 st'" using SigGet.IH normal(2) by blast
    ultimately show ?thesis using quasi_order_trans[OF po] by blast
  qed
next
  case (SigSet s p v c)
  have po: "quasi_order R" using assms(1) by (rule prims_okD(1))
  have lg: "R st (log_event (Wrote (target_of s) p) st)"
    using assms(1) by (rule prims_okD(3))
  have sto: "R st s1" if "store (target_of s) p v (log_event (Wrote (target_of s) p) st) = Some s1" for s1
    using assms(1) that by (rule prims_okD(5))
  have step: "R st s1" if "final (Proxy_set run (log_event (Wrote (target_of s) p) st) s p v) = Some s1" for s1
    using Proxy_set_rel[OF po assms(2) that] lg sto quasi_order_trans[OF po] by blast
  from SigSet.prems
  have "final (bind (Proxy_set run (log_event (Wrote (target_of s) p) st) s p v) (\<lambda>ok s'. exec run c s')) = Some st'"
    by simp
  then show ?case
  proof (cases rule: final_bindE)
    case (raise e)
    then show ?thesis using step by simp
  next
    case (normal x s1)
    then have "R st s1" using step by simp
    moreover have "R s1 st'" using SigSet.IH normal(2) by blast
    ultimately show ?thesis using quasi_order_trans[OF po] by blast
  qed
next
  case (SigHas s p k)
  have po: "quasi_order R" using assms(1) by (rule prims_okD(1))
  have ng: "\<And>s recv p s'. final (notifyGet s recv p) = Some s' \<Longrightarrow> R s s'"
    using assms(1) by (rule prims_okD(2))
  from SigHas.prems have "final (bind (Proxy_has st s p) (\<lambda>v s'. exec run (k v) s')) = Some st'" by simp
  then show ?case
  proof (cases rule: final_bindE)
    case (raise e)
    then have "final (Proxy_has st s p) = Some st'" by simp
    then show ?thesis using ng by (simp add: final_Proxy_has)
  next
    case (normal x s1)
    then have "final (Proxy_has st s p) = Some s1" by simp
    then have "R st s1" using ng by (simp add: final_Proxy_has)
    moreover have "R s1 st'" using SigHas.IH normal(2) by blast
    ultimately show ?thesis using quasi_order_trans[OF po] by blast
  qed
next
  case (SigDelete strict s p k)
  have po: "quasi_order R" using assms(1) by (rule prims_okD(1))
  have lg: "R st (log_event (Wrote (target_of s) p) st)"
    using assms(1) by (rule prims_okD(3))
  have sto: "R st (remove (target_of s) p (log_event (Wrote (target_of s) p) st))"
    using assms(1) by (rule prims_okD(6))
  have step: "R st s1" if "final (Proxy_delete run (log_event (Wrote (target_of s) p) st) s p) = Some s1" for s1
    using Proxy_delete_rel[OF po assms(2) that] lg sto quasi_order_trans[OF po] by blast
  from SigDelete.prems
  have "final (bind (Proxy_delete run (log_event (Wrote (target_of s) p) st) s p)
          (\<lambda>ok s'. if strict \<and> \<not> ok then Raise TypeError s' else exec run (k ok) s')) = Some st'"
    by simp
  then show ?case
  proof (cases rule: final_bindE)
    case (raise e)
    then show ?thesis using step by simp
  next
    case (normal x s1)
    then have a: "R st s1" using step by simp
    show ?thesis
    proof (cases "strict \<and> \<not> x")
      case True
      then show ?thesis using normal(2) a by simp
    next
      case False
      then have "final (exec run (k x) s1) = Some st'" using normal(2) by auto
      then have "R s1 st'" using SigDelete.IH[of "k x" s1] by blast
      with a show ?thesis using quasi_order_trans[OF po] by blast
    qed
  qed
next
  case (CallUpdate f k)
  have po: "quasi_order R" using assms(1) by (rule prims_okD(1))
  have lg: "R st (log_event (Called f) st)"
    using assms(1) by (rule prims_okD(4))
  have step: "R st s1" if "final (update_with run (log_event (Called f) st) f) = Some s1" for s1
    using update_with_rel[OF assms that] lg quasi_order_trans[OF po] by blast
  from CallUpdate.prems
  have "final (bind (update_with run (log_event (Called f) st) f) (\<lambda>v s'. exec run (k v) s')) = Some st'"
    by simp
  then show ?case
  proof (cases rule: final_bindE)
    case (raise e)
    then show ?thesis using step[of st'] by simp
  next
    case (normal x s1)
    then have "R st s1" using step[of s1] by simp
    moreover have "R s1 st'" using CallUpdate.IH normal(2) by blast
    ultimately show ?thesis using quasi_order_trans[OF po] by blast
  qed
next
  case (RawGet a p k)
  from RawGet.prems have "final (exec run (k (getProp (heap st a) p)) st) = Some st'" by simp
  then show ?case using RawGet.IH[of "k (getProp (heap st a) p)" st] by blast
next
  case (RawSet a p v c)
  have po: "quasi_order R" using assms(1) by (rule prims_okD(1))
  show ?case
  proof (cases "store a p v (log_event (Wrote a p) st)")
    case None
    then show ?thesis using RawSet.prems by simp
  next
    case (Some s1)
    have "R st s1" using assms(1) Some by (rule prims_okD(5))
    moreover have "R s1 st'" using RawSet.IH RawSet.prems Some by simp
    ultimately show ?thesis using quasi_order_trans[OF po] by blast
  qed
qed

lemma reactor_rel:
  assumes "prims_ok R" "merge_ok R"
  shows "run_ok R (reactor n P)"
proof (induction n)
  case 0
  then show ?case by (simp add: run_ok_def)
next
  case (Suc n)
  have po: "quasi_order R" using assms(1) by (rule prims_okD(1))
  have ent: "\<And>s r s'. final (enter r s) = Some s' \<Longrightarrow> R s s'"
    using assms(1) by (rule prims_okD(8))
  show ?case unfolding run_ok_def
  proof (intro allI impI)
    fix r s s'
    assume "final (reactor (Suc n) P r s) = Some s'"
    then have "final (bind (enter r s)
       (\<lambda>_ st1. bind (exec (reactor n P) (P (closure_fn r)) st1)
          (\<lambda>result st'. Object_assign (reactor n P) (closure_signal r) result (leave r result st')))) = Some s'"
      by simp
    then show "R s s'"
    proof (cases rule: final_bindE)
      case (raise e)
      then show ?thesis using ent[of r s s'] by simp
    next
      case (normal u s0)
      then have a: "R s s0" using ent[of r s s0] by simp
      from normal(2) have "R s0 s'"
      proof (cases rule: final_bindE)
        case (raise e)
        then show ?thesis using exec_rel[OF assms(1) Suc, of "P (closure_fn r)" s0 s'] by simp
      next
        case (normal x s1)
        then have "R s0 s1" using exec_rel[OF assms(1) Suc, of "P (closure_fn r)" s0 s1] by simp
        moreover have "R s1 s'" using assms(2) Suc normal(2) unfolding merge_ok_def by blast
        ultimately show ?thesis using quasi_order_trans[OF po] by blast
      qed
      with a show ?thesis using quasi_order_trans[OF po] by blast
    qed
  qed
qed

lemma assign_each_rel:
  assumes "quasi_order R" "run_ok R run" "\<And>s a p v s'. store a p v s = Some s' \<Longrightarrow> R s s'"
  shows "final (assign_each run out kvs st) = Some st' \<Longrightarrow> R st st'"
proof (induction kvs arbitrary: st)
  case Nil
  then show ?case using assms(1) by (simp add: quasi_order_refl)
next
  case (Cons kv kvs)
  obtain k v where kv: "kv = (k, v)" by (cases kv)
  have step: "R st s1" if "final (Proxy_set run st out k v) = Some s1" for s1
    using Proxy_set_rel[OF assms(1,2) that] assms(3) quasi_order_refl[OF assms(1)]
      quasi_order_trans[OF assms(1)]
    by blast
  from Cons.prems kv
  have "final (bind (Proxy_set run st out k v)
       (\<lambda>ok st'. if ok then assign_each run out kvs st' else Raise TypeError st')) = Some st'" by simp
  then show ?case
  proof (cases rule: final_bindE)
    case (raise e)
    then show ?thesis using step[of st'] by simp
  next
    case (normal ok s1)
    then have a: "R st s1" using step[of s1] by simp
    show ?thesis
    proof (cases ok)
      case True
      then have "R s1 st'" using Cons.IH normal(2) by simp
      with a show ?thesis using quasi_order_trans[OF assms(1)] by blast
    next
      case False
      then show ?thesis using normal(2) a by simp
    qed
  qed
qed

lemma merge_okI:
  assumes "quasi_order R" "\<And>s a p v s'. store a p v s = Some s' \<Longrightarrow> R s s'"
    "\<And>s r kvs. R s (leave r kvs s)"
  shows "merge_ok R"
  unfolding merge_ok_def
proof (intro allI impI)
  fix run r kvs s s'
  assume ok: "run_ok R run"
    and fin: "final (Object_assign run (closure_signal r) kvs (leave r kvs s)) = Some s'"
  have "R (leave r kvs s) s'"
  proof (rule assign_each_rel[OF assms(1) ok])
    show "\<And>s a p v s'. store a p v s = Some s' \<Longrightarrow> R s s'" by (rule assms(2))
    show "final (assign_each run (closure_signal r) (OwnPropertyKeys (result_object kvs)) (leave r kvs s)) = Some s'"
      using fin unfolding Object_assign_def .
  qed
  then show "R s s'" using assms(3) quasi_order_trans[OF assms(1)] by blast
qed

section \<open>The listener graph: register and clear\<close>

lemma set_Set_add [simp]: "set (Set_add x xs) = insert x (set xs)"
  by (auto simp: Set_add_def)

lemma set_Set_delete [simp]: "set (Set_delete x xs) = set xs - {x}"
  by (auto simp: Set_delete_def)

lemma inherited_lookup [simp]:
  "inherited (lookup own_property p) = (own_property = None \<and> inherited_length p \<noteq> None)"
  by (cases own_property; cases "inherited_length p") (simp_all add: lookup_def)

lemma members_lookup [simp]:
  "members (lookup own_property p) = (case own_property of None \<Rightarrow> [] | Some xs \<Rightarrow> xs)"
  by (cases own_property; cases "inherited_length p") (simp_all add: lookup_def)

lemma setListeners_None [simp]: "setListeners st None p r = Raise TypeError st"
  by (simp add: setListeners_def)

lemma setListeners_Some:
  "setListeners st (Some s) p r =
     (if own_listeners st s p = None \<and> inherited_length p \<noteq> None then
        Raise TypeError
          (st\<lparr>listenersMap := (listenersMap st)(s \<mapsto>
                (case listenersMap st s of None \<Rightarrow> Map.empty | Some l \<Rightarrow> l))\<rparr>)
      else if own_signals st r p = None \<and> inherited_length p \<noteq> None then
        Raise TypeError
          (st\<lparr>listenersMap := (listenersMap st)(s \<mapsto>
                (case listenersMap st s of None \<Rightarrow> Map.empty | Some l \<Rightarrow> l)
                  (p \<mapsto> Set_add r (listeners_of st s p))),
              computeMap := (computeMap st)(r \<mapsto>
                (case computeMap st r of None \<Rightarrow> [] | Some c \<Rightarrow> c))\<rparr>)
      else
        Normal ()
          (st\<lparr>listenersMap := (listenersMap st)(s \<mapsto>
                (case listenersMap st s of None \<Rightarrow> Map.empty | Some l \<Rightarrow> l)
                  (p \<mapsto> Set_add r (listeners_of st s p))),
              computeMap := (computeMap st)(r \<mapsto>
                AList.update p (Set_add s (back_of st r p))
                  (case computeMap st r of None \<Rightarrow> [] | Some c \<Rightarrow> c))\<rparr>))"
proof -
  have a: "(case listenersMap st s of None \<Rightarrow> Map.empty | Some l \<Rightarrow> l) p = own_listeners st s p"
    by (cases "listenersMap st s") (simp_all add: own_listeners_def)
  have b: "map_of (case computeMap st r of None \<Rightarrow> [] | Some c \<Rightarrow> c) p = own_signals st r p"
    by (cases "computeMap st r") (simp_all add: own_signals_def)
  show ?thesis
    by (simp add: setListeners_def Let_def a b listeners_of_def back_of_def)
qed

lemma setListeners_total: "\<exists>st'. final (setListeners st recv p r) = Some st'"
  by (cases recv) (simp_all add: setListeners_Some)


lemma setListeners_shape:
  assumes "final (setListeners st recv p r) = Some st'"
  shows "\<exists>lm cm. st' = st\<lparr>listenersMap := lm, computeMap := cm\<rparr>"
proof (cases recv)
  case None
  then have "st' = st\<lparr>listenersMap := listenersMap st, computeMap := computeMap st\<rparr>"
    using assms by simp
  then show ?thesis by blast
next
  case (Some s)
  show ?thesis
  proof (cases "own_listeners st s p = None \<and> inherited_length p \<noteq> None")
    case True
    then have "st' = st\<lparr>listenersMap := (listenersMap st)(s \<mapsto>
                (case listenersMap st s of None \<Rightarrow> Map.empty | Some l \<Rightarrow> l))\<rparr>"
      using assms unfolding Some setListeners_Some by auto
    then have "st' = st\<lparr>listenersMap := (listenersMap st)(s \<mapsto>
                (case listenersMap st s of None \<Rightarrow> Map.empty | Some l \<Rightarrow> l)),
              computeMap := computeMap st\<rparr>"
      by simp
    then show ?thesis by blast
  next
    case False
    show ?thesis
    proof (cases "own_signals st r p = None \<and> inherited_length p \<noteq> None")
      case True
      then have "st' = st\<lparr>listenersMap := (listenersMap st)(s \<mapsto>
                (case listenersMap st s of None \<Rightarrow> Map.empty | Some l \<Rightarrow> l)
                  (p \<mapsto> Set_add r (listeners_of st s p))),
              computeMap := (computeMap st)(r \<mapsto>
                (case computeMap st r of None \<Rightarrow> [] | Some c \<Rightarrow> c))\<rparr>"
        using assms False unfolding Some setListeners_Some by auto
      then show ?thesis by blast
    next
      case nb: False
      then have "st' = st\<lparr>listenersMap := (listenersMap st)(s \<mapsto>
                (case listenersMap st s of None \<Rightarrow> Map.empty | Some l \<Rightarrow> l)
                  (p \<mapsto> Set_add r (listeners_of st s p))),
              computeMap := (computeMap st)(r \<mapsto>
                AList.update p (Set_add s (back_of st r p))
                  (case computeMap st r of None \<Rightarrow> [] | Some c \<Rightarrow> c))\<rparr>"
        using assms False unfolding Some setListeners_Some by auto
      then show ?thesis by blast
    qed
  qed
qed

lemma setListeners_fields:
  assumes "final (setListeners st recv p r) = Some st'"
  shows "trace st' = trace st" "heap st' = heap st" "nobjs st' = nobjs st"
    "computeStack st' = computeStack st" "reactStack st' = reactStack st"
proof -
  obtain lm cm where "st' = st\<lparr>listenersMap := lm, computeMap := cm\<rparr>"
    using setListeners_shape[OF assms] by blast
  then show "trace st' = trace st" "heap st' = heap st" "nobjs st' = nobjs st"
    "computeStack st' = computeStack st" "reactStack st' = reactStack st"
    by simp_all
qed

lemma setListeners_Normal_state:
  assumes "setListeners st (Some s) p r = Normal () st'"
  shows "st' = st\<lparr>listenersMap := (listenersMap st)(s \<mapsto>
                (case listenersMap st s of None \<Rightarrow> Map.empty | Some l \<Rightarrow> l)
                  (p \<mapsto> Set_add r (listeners_of st s p))),
              computeMap := (computeMap st)(r \<mapsto>
                AList.update p (Set_add s (back_of st r p))
                  (case computeMap st r of None \<Rightarrow> [] | Some c \<Rightarrow> c))\<rparr>"
  using assms unfolding setListeners_Some by (auto split: if_splits)

lemma own_listeners_setListeners:
  assumes "setListeners st (Some s) p r = Normal () st'"
  shows "own_listeners st' s' p' =
      (if s' = s \<and> p' = p then Some (Set_add r (listeners_of st s p)) else own_listeners st s' p')"
proof -
  have "listenersMap st' = (listenersMap st)(s \<mapsto>
        (case listenersMap st s of None \<Rightarrow> Map.empty | Some l \<Rightarrow> l)(p \<mapsto> Set_add r (listeners_of st s p)))"
    by (simp add: setListeners_Normal_state[OF assms])
  then show ?thesis
    by (cases "listenersMap st s") (simp_all add: own_listeners_def)
qed

lemma own_signals_setListeners:
  assumes "setListeners st (Some s) p r = Normal () st'"
  shows "own_signals st' r' p' =
      (if r' = r \<and> p' = p then Some (Set_add s (back_of st r p)) else own_signals st r' p')"
proof -
  have "computeMap st' = (computeMap st)(r \<mapsto>
        AList.update p (Set_add s (back_of st r p)) (case computeMap st r of None \<Rightarrow> [] | Some c \<Rightarrow> c))"
    by (simp add: setListeners_Normal_state[OF assms])
  then show ?thesis
    by (cases "computeMap st r") (simp_all add: own_signals_def update_conv')
qed

lemma listeners_of_setListeners:
  assumes "setListeners st (Some s) p r = Normal () st'"
  shows "listeners_of st' s' p' =
      (if s' = s \<and> p' = p then Set_add r (listeners_of st s p) else listeners_of st s' p')"
  by (simp add: listeners_of_def own_listeners_setListeners[OF assms])

lemma back_of_setListeners:
  assumes "setListeners st (Some s) p r = Normal () st'"
  shows "back_of st' r' p' =
      (if r' = r \<and> p' = p then Set_add s (back_of st r p) else back_of st r' p')"
  by (simp add: back_of_def own_signals_setListeners[OF assms])

lemma setListeners_Normal_name:
  assumes "plain st" "setListeners st (Some s) p r = Normal () st'"
  shows "inherited_length p = None"
proof (rule ccontr)
  assume inh: "inherited_length p \<noteq> None"
  have "own_listeners st s p = None"
    using assms(1) inh unfolding plain_def by metis
  then show False using assms(2) inh unfolding setListeners_Some by simp
qed

lemma setListeners_Raise:
  assumes "plain st" "setListeners st recv p r = Raise e st'"
  shows "e = TypeError" "own_listeners st' = own_listeners st" "own_signals st' = own_signals st"
proof -
  show "e = TypeError"
    using assms(2) by (cases recv) (simp_all add: setListeners_Some split: if_splits)
  have "own_listeners st' = own_listeners st \<and> own_signals st' = own_signals st"
  proof (cases recv)
    case None
    then show ?thesis using assms(2) by simp
  next
    case (Some s)
    show ?thesis
    proof (cases "inherited_length p")
      case None
      then show ?thesis using assms(2) unfolding Some setListeners_Some by simp
    next
      case (Some n)
      then have no: "own_listeners st s p = None"
        using assms(1) unfolding plain_def by (metis option.distinct(1))
      then have st': "st' = st\<lparr>listenersMap := (listenersMap st)(s \<mapsto>
                (case listenersMap st s of None \<Rightarrow> Map.empty | Some l \<Rightarrow> l))\<rparr>"
        using assms(2) Some unfolding \<open>recv = Some s\<close> setListeners_Some by simp
      have "own_listeners st' x q = own_listeners st x q" for x q
        by (cases "listenersMap st s") (simp_all add: st' own_listeners_def)
      moreover have "own_signals st' = own_signals st"
        by (simp add: st' own_signals_def fun_eq_iff)
      ultimately show ?thesis by (simp add: fun_eq_iff)
    qed
  qed
  then show "own_listeners st' = own_listeners st" "own_signals st' = own_signals st" by simp_all
qed

lemma listeners_of_cong: "own_listeners s' = own_listeners s \<Longrightarrow> listeners_of s' = listeners_of s"
  by (simp add: listeners_of_def fun_eq_iff)

lemma back_of_cong: "own_signals s' = own_signals s \<Longrightarrow> back_of s' = back_of s"
  by (simp add: back_of_def fun_eq_iff)

lemma own_listeners_cong: "listenersMap s' = listenersMap s \<Longrightarrow> own_listeners s' = own_listeners s"
  by (simp add: own_listeners_def fun_eq_iff)

lemma own_signals_cong: "computeMap s' = computeMap s \<Longrightarrow> own_signals s' = own_signals s"
  by (simp add: own_signals_def fun_eq_iff)

lemma graph_cong:
  assumes "own_listeners s' = own_listeners s" "own_signals s' = own_signals s"
  shows "forward_in_back s' = forward_in_back s" "mutual_inverses s' = mutual_inverses s"
    "plain s' = plain s"
  using listeners_of_cong[OF assms(1)] back_of_cong[OF assms(2)] assms
  by (simp_all add: forward_in_back_def mutual_inverses_def plain_def)

lemma setListeners_plain:
  assumes "plain st" "final (setListeners st recv p r) = Some st'"
  shows "plain st'"
proof (cases "setListeners st recv p r")
  case (Normal u s1)
  then have st': "s1 = st'" using assms(2) by simp
  obtain s where recv: "recv = Some s" using Normal by (cases recv) simp_all
  have reg: "setListeners st (Some s) p r = Normal () st'" using Normal st' recv by simp
  have nm: "inherited_length p = None" using setListeners_Normal_name[OF assms(1) reg] .
  show ?thesis
    using assms(1) nm unfolding plain_def
    by (simp add: own_listeners_setListeners[OF reg] own_signals_setListeners[OF reg])
next
  case (Raise e s1)
  then have "setListeners st recv p r = Raise e st'" using assms(2) by simp
  then show ?thesis using setListeners_Raise(2,3)[OF assms(1)] graph_cong(3) assms(1) by blast
next
  case OutOfFuel
  then show ?thesis using assms(2) by simp
next
  case Unmodelled
  then show ?thesis using assms(2) by simp
qed

lemma setListeners_forward_in_back:
  assumes "forward_in_back st" "plain st" "final (setListeners st recv p r) = Some st'"
  shows "forward_in_back st'"
proof (cases "setListeners st recv p r")
  case (Normal u s1)
  then have st': "s1 = st'" using assms(3) by simp
  obtain s where recv: "recv = Some s" using Normal by (cases recv) simp_all
  have reg: "setListeners st (Some s) p r = Normal () st'" using Normal st' recv by simp
  show ?thesis
    using assms(1) unfolding forward_in_back_def
    by (simp add: listeners_of_setListeners[OF reg] back_of_setListeners[OF reg])
next
  case (Raise e s1)
  then have "setListeners st recv p r = Raise e st'" using assms(3) by simp
  then show ?thesis using setListeners_Raise(2,3)[OF assms(2)] graph_cong(1) assms(1) by blast
next
  case OutOfFuel
  then show ?thesis using assms(3) by simp
next
  case Unmodelled
  then show ?thesis using assms(3) by simp
qed


subsection \<open>Clearing\<close>

lemma shrinks_refl: "shrinks c s s"
proof -
  have "s = s\<lparr>listenersMap := listenersMap s\<rparr>" by simp
  then have "\<exists>lm. s = s\<lparr>listenersMap := lm\<rparr>" by blast
  then show ?thesis unfolding shrinks_def by auto
qed

lemma shrinks_trans:
  assumes "shrinks c a b" "shrinks c b d"
  shows "shrinks c a d"
proof -
  obtain lm where b: "b = a\<lparr>listenersMap := lm\<rparr>" using assms(1) unfolding shrinks_def by blast
  obtain lm' where d: "d = b\<lparr>listenersMap := lm'\<rparr>" using assms(2) unfolding shrinks_def by blast
  have "d = a\<lparr>listenersMap := lm'\<rparr>" by (simp add: b d)
  then have shape: "\<exists>lm. d = a\<lparr>listenersMap := lm\<rparr>" by blast
  have keys: "(own_listeners d x p = None) = (own_listeners a x p = None)" for x p
    using assms unfolding shrinks_def by simp
  have sub: "set (listeners_of d x p) \<subseteq> set (listeners_of a x p)" for x p
    using assms unfolding shrinks_def by blast
  have sup: "set (listeners_of a x p) - {c} \<subseteq> set (listeners_of d x p)" for x p
    using assms unfolding shrinks_def by blast
  show ?thesis unfolding shrinks_def using shape keys sub sup by blast
qed

lemma quasi_order_shrinks: "quasi_order (shrinks c)"
  unfolding quasi_order_def using shrinks_refl shrinks_trans by blast

lemma unlisten_shrinks:
  assumes "final (unlisten c p s st) = Some st'"
  shows "shrinks c st st'"
proof (cases "listenersMap st s")
  case None
  then show ?thesis using assms by (simp add: unlisten_def shrinks_refl)
next
  case (Some l)
  show ?thesis
  proof (cases "l p")
    case None
    then have "st' = st"
      using assms Some by (cases "inherited_length p") (simp_all add: unlisten_def lookup_def)
    then show ?thesis by (simp add: shrinks_refl)
  next
    case (Some lset)
    then have st': "st' = st\<lparr>listenersMap := (listenersMap st)(s \<mapsto> l(p \<mapsto> Set_delete c lset))\<rparr>"
      using assms \<open>listenersMap st s = Some l\<close> by (simp add: unlisten_def lookup_def)
    then have shape: "\<exists>lm. st' = st\<lparr>listenersMap := lm\<rparr>" by blast
    have own: "own_listeners st' x q =
        (if x = s \<and> q = p then Some (Set_delete c lset) else own_listeners st x q)" for x q
      using \<open>listenersMap st s = Some l\<close> by (simp add: st' own_listeners_def)
    have was: "own_listeners st s p = Some lset"
      using \<open>listenersMap st s = Some l\<close> Some by (simp add: own_listeners_def)
    have keys: "(own_listeners st' x q = None) = (own_listeners st x q = None)" for x q
      using was by (simp add: own)
    have ls: "listeners_of st' x q =
        (if x = s \<and> q = p then Set_delete c (listeners_of st s p) else listeners_of st x q)" for x q
      using was by (simp add: listeners_of_def own)
    show ?thesis unfolding shrinks_def using shape keys by (auto simp: ls)
  qed
qed

lemma clearListeners_shrinks:
  assumes "final (clearListeners st r) = Some st'"
  shows "shrinks r st st'"
proof (cases "computeMap st r")
  case None
  then show ?thesis using assms by (simp add: clearListeners_def shrinks_refl)
next
  case (Some cs)
  have inner: "shrinks r s s'"
    if "final (for_each (unlisten r p) xs s) = Some s'" for p xs s s'
    using for_each_rel[OF quasi_order_shrinks, of "unlisten r p" r xs s s'] unlisten_shrinks that
    by blast
  have "final (for_each
            (\<lambda>property. for_each (unlisten r property)
               (members (lookup (map_of cs property) property)))
            (Object_keys cs) st) = Some st'"
    using assms Some by (simp add: clearListeners_def)
  then show ?thesis
    using for_each_rel[OF quasi_order_shrinks,
        of "\<lambda>property. for_each (unlisten r property) (members (lookup (map_of cs property) property))"
           r "Object_keys cs" st st']
      inner
    by blast
qed

lemma shrinks_fields:
  assumes "shrinks c s s'"
  shows "trace s' = trace s" "heap s' = heap s" "nobjs s' = nobjs s"
    "computeMap s' = computeMap s" "computeStack s' = computeStack s"
    "reactStack s' = reactStack s" "own_signals s' = own_signals s" "back_of s' = back_of s"
proof -
  obtain lm where "s' = s\<lparr>listenersMap := lm\<rparr>" using assms unfolding shrinks_def by blast
  then show "trace s' = trace s" "heap s' = heap s" "nobjs s' = nobjs s"
    "computeMap s' = computeMap s" "computeStack s' = computeStack s"
    "reactStack s' = reactStack s" "own_signals s' = own_signals s" "back_of s' = back_of s"
    by (simp_all add: own_signals_def back_of_def fun_eq_iff)
qed

lemma shrinks_invariants:
  assumes "shrinks c s s'"
  shows "forward_in_back s \<Longrightarrow> forward_in_back s'" "plain s \<Longrightarrow> plain s'"
proof -
  have sub: "set (listeners_of s' x p) \<subseteq> set (listeners_of s x p)" for x p
    using assms unfolding shrinks_def by blast
  show "forward_in_back s \<Longrightarrow> forward_in_back s'"
    unfolding forward_in_back_def using sub shrinks_fields(8)[OF assms] by (metis subsetD)
  have keys: "(own_listeners s' x p = None) = (own_listeners s x p = None)" for x p
    using assms unfolding shrinks_def by simp
  show "plain s \<Longrightarrow> plain s'"
    unfolding plain_def using keys shrinks_fields(7)[OF assms] by simp
qed

lemma listeners_of_init [simp]: "listeners_of init s p = []"
  by (simp add: listeners_of_def own_listeners_def init_def)

lemma back_of_init [simp]: "back_of init r p = []"
  by (simp add: back_of_def own_signals_def init_def)


lemma forward_in_back_init: "forward_in_back init"
  by (simp add: forward_in_back_def)

section \<open>What the elementary updates change\<close>

lemma log_event_fields [simp]:
  "trace (log_event e st) = trace st @ [e]"
  "heap (log_event e st) = heap st"
  "nobjs (log_event e st) = nobjs st"
  "listenersMap (log_event e st) = listenersMap st"
  "computeMap (log_event e st) = computeMap st"
  "computeStack (log_event e st) = computeStack st"
  "reactStack (log_event e st) = reactStack st"
  by (simp_all add: log_event_def)

lemma store_fields:
  assumes "store a p v st = Some st'"
  shows "trace st' = trace st" "nobjs st' = nobjs st" "listenersMap st' = listenersMap st"
    "computeMap st' = computeMap st" "computeStack st' = computeStack st"
    "reactStack st' = reactStack st"
    "\<exists>ob. putProp (heap st a) p v = Some ob \<and> heap st' = (heap st)(a := ob)"
  using assms by (auto simp: store_def split: option.splits)

lemma remove_fields [simp]:
  "trace (remove a p st) = trace st"
  "heap (remove a p st) = (heap st)(a := delProp (heap st a) p)"
  "nobjs (remove a p st) = nobjs st"
  "listenersMap (remove a p st) = listenersMap st"
  "computeMap (remove a p st) = computeMap st"
  "computeStack (remove a p st) = computeStack st"
  "reactStack (remove a p st) = reactStack st"
  by (simp_all add: remove_def)

lemma leave_fields [simp]:
  "trace (leave r kvs st) = trace st @ [Merged (target_of (closure_signal r)) (map fst kvs)]"
  "heap (leave r kvs st) = heap st"
  "nobjs (leave r kvs st) = nobjs st"
  "listenersMap (leave r kvs st) = listenersMap st"
  "computeMap (leave r kvs st) = computeMap st"
  "computeStack (leave r kvs st) = butlast (computeStack st)"
  "reactStack (leave r kvs st) = reactStack st"
  by (simp_all add: leave_def)

lemma own_simps [simp]:
  "own_listeners (log_event e st) = own_listeners st"
  "own_listeners (remove a p st) = own_listeners st"
  "own_listeners (leave r kvs st) = own_listeners st"
  "own_signals (log_event e st) = own_signals st"
  "own_signals (remove a p st) = own_signals st"
  "own_signals (leave r kvs st) = own_signals st"
  by (simp_all add: own_listeners_def own_signals_def fun_eq_iff)

lemma listeners_of_simps [simp]:
  "listeners_of (log_event e st) = listeners_of st"
  "listeners_of (remove a p st) = listeners_of st"
  "listeners_of (leave r kvs st) = listeners_of st"
  by (simp_all add: listeners_of_def fun_eq_iff)

lemma back_of_simps [simp]:
  "back_of (log_event e st) = back_of st"
  "back_of (remove a p st) = back_of st"
  "back_of (leave r kvs st) = back_of st"
  by (simp_all add: back_of_def fun_eq_iff)

lemma graph_simps [simp]:
  "forward_in_back (log_event e st) = forward_in_back st"
  "forward_in_back (remove a p st) = forward_in_back st"
  "forward_in_back (leave r kvs st) = forward_in_back st"
  "plain (log_event e st) = plain st"
  "plain (remove a p st) = plain st"
  "plain (leave r kvs st) = plain st"
  by (simp_all add: forward_in_back_def plain_def)

lemma store_graph:
  assumes "store a p v st = Some st'"
  shows "own_listeners st' = own_listeners st" "own_signals st' = own_signals st"
    "listeners_of st' = listeners_of st" "back_of st' = back_of st"
    "forward_in_back st' = forward_in_back st" "plain st' = plain st"
proof -
  show a: "own_listeners st' = own_listeners st"
    using store_fields(3)[OF assms] by (rule own_listeners_cong)
  show b: "own_signals st' = own_signals st"
    using store_fields(4)[OF assms] by (rule own_signals_cong)
  show "listeners_of st' = listeners_of st" using a by (rule listeners_of_cong)
  show "back_of st' = back_of st" using b by (rule back_of_cong)
  show "forward_in_back st' = forward_in_back st" using a b by (rule graph_cong(1))
  show "plain st' = plain st" using a b by (rule graph_cong(3))
qed

lemma enter_cases:
  assumes "final (enter r st) = Some st'"
  obtains (failed) e where "clearListeners st r = Raise e st'" "enter r st = Raise e st'"
    | (entered) st1 where "clearListeners st r = Normal () st1"
        "st' = log_event (Ran r) (st1\<lparr>computeStack := computeStack st1 @ [r]\<rparr>)"
        "enter r st = Normal () st'"
proof (cases "clearListeners st r")
  case (Normal u st1)
  then have "st' = log_event (Ran r) (st1\<lparr>computeStack := computeStack st1 @ [r]\<rparr>)"
    using assms by (simp add: enter_def)
  moreover from this have "enter r st = Normal () st'" using Normal by (simp add: enter_def)
  ultimately show ?thesis using Normal entered by simp
next
  case (Raise e st1)
  then have "st1 = st'" using assms by (simp add: enter_def)
  then show ?thesis using Raise failed by (simp add: enter_def)
next
  case OutOfFuel
  then show ?thesis using assms by (simp add: enter_def)
next
  case Unmodelled
  then show ?thesis using assms by (simp add: enter_def)
qed

lemma enter_shrinks:
  assumes "final (enter r st) = Some st'"
  obtains st1 where "shrinks r st st1"
    "st' = st1 \<or> st' = log_event (Ran r) (st1\<lparr>computeStack := computeStack st1 @ [r]\<rparr>)"
  using assms
proof (cases rule: enter_cases)
  case (failed e)
  then have "shrinks r st st'" using clearListeners_shrinks[of st r st'] by simp
  then show ?thesis using that by blast
next
  case (entered st1)
  then have "shrinks r st st1" using clearListeners_shrinks[of st r st1] by simp
  then show ?thesis using that entered(2) by blast
qed

lemma enter_fields:
  assumes "final (enter r st) = Some st'"
  shows "heap st' = heap st" "nobjs st' = nobjs st" "computeMap st' = computeMap st"
    "reactStack st' = reactStack st" "own_signals st' = own_signals st"
    "trace st' = trace st \<or> trace st' = trace st @ [Ran r]"
    "set (listeners_of st' x p) \<subseteq> set (listeners_of st x p)"
proof -
  obtain st1 where s: "shrinks r st st1"
    and st': "st' = st1 \<or> st' = log_event (Ran r) (st1\<lparr>computeStack := computeStack st1 @ [r]\<rparr>)"
    using assms by (rule enter_shrinks)
  note f = shrinks_fields[OF s]
  show "heap st' = heap st" using st' f by auto
  show "nobjs st' = nobjs st" using st' f by auto
  show "computeMap st' = computeMap st" using st' f by auto
  show "reactStack st' = reactStack st" using st' f by auto
  show "own_signals st' = own_signals st" using st' f by (auto simp: own_signals_def fun_eq_iff)
  show "trace st' = trace st \<or> trace st' = trace st @ [Ran r]" using st' f by auto
  have "listeners_of st' = listeners_of st1"
    using st' by (auto simp: listeners_of_def own_listeners_def fun_eq_iff)
  then show "set (listeners_of st' x p) \<subseteq> set (listeners_of st x p)"
    using s unfolding shrinks_def by simp
qed

lemma enter_invariants:
  assumes "final (enter r st) = Some st'"
  shows "forward_in_back st \<Longrightarrow> forward_in_back st'" "plain st \<Longrightarrow> plain st'"
proof -
  obtain st1 where s: "shrinks r st st1"
    and st': "st' = st1 \<or> st' = log_event (Ran r) (st1\<lparr>computeStack := computeStack st1 @ [r]\<rparr>)"
    using assms by (rule enter_shrinks)
  have eq: "own_listeners st' = own_listeners st1" "own_signals st' = own_signals st1"
    using st' by (auto simp: own_listeners_def own_signals_def fun_eq_iff)
  show "forward_in_back st \<Longrightarrow> forward_in_back st'"
    using shrinks_invariants(1)[OF s] graph_cong(1)[OF eq] by simp
  show "plain st \<Longrightarrow> plain st'"
    using shrinks_invariants(2)[OF s] graph_cong(3)[OF eq] by simp
qed

lemma list_case_nonempty: "xs \<noteq> [] \<Longrightarrow> (case xs of [] \<Rightarrow> a | _ # _ \<Rightarrow> b) = b"
  by (cases xs) simp_all

lemma notifyGet_cases:
  assumes "final (notifyGet st recv p) = Some st'"
  obtains (outside) "computeStack st = []" "st' = st" "notifyGet st recv p = Normal () st"
    | (failed) e where "computeStack st \<noteq> []"
        "setListeners st recv p (last (computeStack st)) = Raise e st'"
        "notifyGet st recv p = Raise e st'"
    | (tracked) s st1 where "computeStack st \<noteq> []" "recv = Some s"
        "setListeners st (Some s) p (last (computeStack st)) = Normal () st1"
        "st' = log_event (Tracked (last (computeStack st)) s p) st1"
        "notifyGet st recv p = Normal () st'"
proof (cases "computeStack st")
  case Nil
  then have "st' = st" "notifyGet st recv p = Normal () st" using assms by (simp_all add: notifyGet_def)
  with Nil show ?thesis using outside by simp
next
  case (Cons a list)
  then have ne: "computeStack st \<noteq> []" by simp
  have eq: "notifyGet st recv p =
      bind (setListeners st recv p (last (computeStack st)))
        (\<lambda>_ st'. case recv of
            None \<Rightarrow> Normal () st'
          | Some s \<Rightarrow> Normal () (log_event (Tracked (last (computeStack st)) s p) st'))"
    using ne by (simp add: notifyGet_def Let_def list_case_nonempty)
  show ?thesis
  proof (cases "setListeners st recv p (last (computeStack st))")
    case (Normal u st1)
    then obtain s where recv: "recv = Some s" by (cases recv) simp_all
    have "st' = log_event (Tracked (last (computeStack st)) s p) st1"
      using assms Normal recv unfolding eq by simp
    moreover from this have "notifyGet st recv p = Normal () st'"
      using Normal recv unfolding eq by simp
    ultimately show ?thesis using tracked[OF ne recv] Normal recv by simp
  next
    case (Raise e st1)
    then have "st1 = st'" using assms unfolding eq by simp
    then show ?thesis using failed[OF ne] Raise unfolding eq by simp
  next
    case OutOfFuel
    then show ?thesis using assms unfolding eq by simp
  next
    case Unmodelled
    then show ?thesis using assms unfolding eq by simp
  qed
qed

lemma notifyGet_total: "\<exists>st'. final (notifyGet st recv p) = Some st'"
proof (cases "computeStack st")
  case Nil
  then show ?thesis by (simp add: notifyGet_def)
next
  case (Cons a list)
  obtain st1 where "final (setListeners st recv p (last (computeStack st))) = Some st1"
    using setListeners_total by blast
  then show ?thesis
    using Cons
    by (cases "setListeners st recv p (last (computeStack st))"; cases recv)
       (simp_all add: notifyGet_def Let_def)
qed

lemma notifyGet_fields:
  assumes "final (notifyGet st recv p) = Some st'"
  shows "heap st' = heap st" "nobjs st' = nobjs st" "computeStack st' = computeStack st"
    "reactStack st' = reactStack st"
proof -
  have "heap st' = heap st \<and> nobjs st' = nobjs st \<and> computeStack st' = computeStack st
      \<and> reactStack st' = reactStack st"
    using assms
  proof (cases rule: notifyGet_cases)
    case outside
    then show ?thesis by simp
  next
    case (failed e)
    then have fin: "final (setListeners st recv p (last (computeStack st))) = Some st'" by simp
    show ?thesis using setListeners_fields[OF fin] by simp
  next
    case (tracked s st1)
    then have fin: "final (setListeners st (Some s) p (last (computeStack st))) = Some st1" by simp
    show ?thesis using setListeners_fields[OF fin] tracked(4) by simp
  qed
  then show "heap st' = heap st" "nobjs st' = nobjs st" "computeStack st' = computeStack st"
    "reactStack st' = reactStack st"
    by simp_all
qed


lemma update_prepare_fields:
  assumes "final (update_prepare st fn) = Some st'"
  shows "trace st' = trace st" "listenersMap st' = listenersMap st" "computeMap st' = computeMap st"
    "computeStack st' = computeStack st" "nobjs st \<le> nobjs st'"
    "\<forall>a < nobjs st. heap st' a = heap st a"
  using assms
  by (auto simp: update_prepare_def signal_of_def new_object_def signal_def Let_def
      split: if_splits option.splits prod.splits)

lemma update_prepare_pushes:
  "final (update_prepare st fn) = Some st' \<Longrightarrow> fn \<in> set (reactStack st')"
  by (auto simp: update_prepare_def signal_of_def new_object_def signal_def Let_def
      split: if_splits option.splits prod.splits)

lemma update_prepare_reactStack:
  assumes "final (update_prepare st fn) = Some st'"
  shows "set (reactStack st) \<subseteq> set (reactStack st')"
  using assms
  by (auto simp: update_prepare_def signal_of_def new_object_def signal_def Let_def
      split: if_splits option.splits prod.splits)

lemma update_prepare_returns:
  "(fn \<notin> set (reactStack st) \<and> (\<exists>r st'. update_prepare st fn = Normal r st' \<and> closure_fn r = fn))
   \<or> (fn \<in> set (reactStack st) \<and> update_prepare st fn = Raise (RecursiveInvocation fn) st)"
  by (simp add: update_prepare_def signal_of_def new_object_def signal_def Let_def
      split: option.splits prod.splits)

lemma update_prepare_graph:
  assumes "final (update_prepare st fn) = Some st'"
  shows "own_listeners st' = own_listeners st" "own_signals st' = own_signals st"
  using update_prepare_fields(2,3)[OF assms] own_listeners_cong own_signals_cong by blast+


section \<open>The log only grows\<close>

lemma extends_refl [simp]: "extends s s"
  by (simp add: extends_def)

lemma extends_trans: "extends a b \<Longrightarrow> extends b c \<Longrightarrow> extends a c"
  by (auto simp: extends_def)

lemma extends_since: "extends s s' \<Longrightarrow> trace s' = trace s @ since s s'"
  by (auto simp: extends_def since_def)

lemma extendsI: "trace s' = trace s @ t \<Longrightarrow> extends s s'"
  by (auto simp: extends_def)

lemma extends_same: "trace s' = trace s \<Longrightarrow> extends s s'"
  by (simp add: extends_def)

lemma since_trans:
  "extends a b \<Longrightarrow> extends b c \<Longrightarrow> since a c = since a b @ since b c"
  by (auto simp: extends_def since_def)

lemma since_same: "trace s' = trace s \<Longrightarrow> since s s' = []"
  by (simp add: since_def)

lemma since_same_left: "trace s1 = trace s \<Longrightarrow> since s1 s' = since s s'"
  by (simp add: since_def)

lemma notifyGet_log:
  assumes "final (notifyGet s recv p) = Some s'"
  shows "since s s' = [] \<or> (\<exists>x. recv = Some x \<and> since s s' = [Tracked (last (computeStack s)) x p])"
    and "extends s s'"
proof -
  have "(trace s' = trace s) \<or> (\<exists>x. recv = Some x \<and> trace s' = trace s @ [Tracked (last (computeStack s)) x p])"
    using assms
  proof (cases rule: notifyGet_cases)
    case outside
    then show ?thesis by simp
  next
    case (failed e)
    then have "final (setListeners s recv p (last (computeStack s))) = Some s'" by simp
    then show ?thesis using setListeners_fields(1) by blast
  next
    case (tracked x st1)
    then have "final (setListeners s (Some x) p (last (computeStack s))) = Some st1" by simp
    then have "trace st1 = trace s" by (rule setListeners_fields(1))
    then show ?thesis using tracked by simp
  qed
  then show "since s s' = [] \<or> (\<exists>x. recv = Some x \<and> since s s' = [Tracked (last (computeStack s)) x p])"
    "extends s s'"
    by (auto simp: since_def extends_def)
qed

lemma enter_log:
  assumes "final (enter r s) = Some s'"
  shows "extends s s'" "since s s' = [] \<or> since s s' = [Ran r]"
  using enter_fields(6)[OF assms] by (auto simp: extends_def since_def)

lemma prims_ok_extends: "prims_ok extends"
  unfolding prims_ok_def quasi_order_def
proof (intro conjI allI impI)
  fix s recv p s' assume "final (notifyGet s recv p) = Some s'"
  then show "extends s s'" by (rule notifyGet_log(2))
next
  fix s f s' assume "final (update_prepare s f) = Some s'"
  then show "extends s s'" by (simp add: extends_def update_prepare_fields(1))
next
  fix s a p v s' assume "store a p v (log_event (Wrote a p) s) = Some s'"
  then show "extends s s'" using store_fields(1) by (fastforce simp: extends_def)
next
  fix s r s' assume "final (enter r s) = Some s'"
  then show "extends s s'" by (rule enter_log(1))
qed (auto simp: extends_def)

lemma merge_ok_extends: "merge_ok extends"
proof (rule merge_okI)
  show "quasi_order extends" using prims_ok_extends by (rule prims_okD(1))
  show "extends s s'" if "store a p v s = Some s'" for s a p v s'
    using store_fields(1)[OF that] by (simp add: extends_def)
  show "extends s (leave r kvs s)" for s r kvs by (simp add: extends_def)
qed

lemmas run_ok_extends = reactor_rel[OF prims_ok_extends merge_ok_extends]


lemmas exec_extends = exec_rel[OF prims_ok_extends run_ok_extends]

lemma quasi_order_extends: "quasi_order extends"
  using prims_ok_extends by (rule prims_okD(1))




section \<open>The run-guard stack only grows\<close>

lemma prims_ok_reactStack_grows: "prims_ok reactStack_grows"
  unfolding prims_ok_def quasi_order_def
proof (intro conjI allI impI)
  fix s recv p s' assume "final (notifyGet s recv p) = Some s'"
  then show "reactStack_grows s s'" using notifyGet_fields(4) by (simp add: reactStack_grows_def)
next
  fix s f s' assume "final (update_prepare s f) = Some s'"
  then show "reactStack_grows s s'"
    using update_prepare_reactStack by (simp add: reactStack_grows_def)
next
  fix s a p v s' assume "store a p v (log_event (Wrote a p) s) = Some s'"
  then show "reactStack_grows s s'" using store_fields(6) by (fastforce simp: reactStack_grows_def)
next
  fix s r s' assume "final (enter r s) = Some s'"
  then show "reactStack_grows s s'" using enter_fields(4) by (simp add: reactStack_grows_def)
qed (auto simp: reactStack_grows_def)

lemma merge_ok_reactStack_grows: "merge_ok reactStack_grows"
proof (rule merge_okI)
  show "quasi_order reactStack_grows" using prims_ok_reactStack_grows by (rule prims_okD(1))
  show "reactStack_grows s s'" if "store a p v s = Some s'" for s a p v s'
    using store_fields(6)[OF that] by (simp add: reactStack_grows_def)
  show "reactStack_grows s (leave r kvs s)" for s r kvs by (simp add: reactStack_grows_def)
qed

lemmas run_ok_reactStack_grows = reactor_rel[OF prims_ok_reactStack_grows merge_ok_reactStack_grows]

lemma exec_reactStack_grows:
  "final (exec (reactor n P) c st) = Some st' \<Longrightarrow> reactStack_grows st st'"
  by (rule exec_rel[OF prims_ok_reactStack_grows run_ok_reactStack_grows])

section \<open>Every forward edge keeps its back edge\<close>

lemma prims_ok_keeps_invariants: "prims_ok keeps_invariants"
  unfolding prims_ok_def quasi_order_def
proof (intro conjI allI impI)
  fix s recv p s' assume fin: "final (notifyGet s recv p) = Some s'"
  show "keeps_invariants s s'"
    using fin
  proof (cases rule: notifyGet_cases)
    case outside
    then show ?thesis by (simp add: keeps_invariants_def)
  next
    case (failed e)
    then have f: "final (setListeners s recv p (last (computeStack s))) = Some s'" by simp
    show ?thesis
      using setListeners_forward_in_back[OF _ _ f] setListeners_plain[OF _ f]
      by (simp add: keeps_invariants_def)
  next
    case (tracked x st1)
    then have f: "final (setListeners s (Some x) p (last (computeStack s))) = Some st1" by simp
    show ?thesis
      using setListeners_forward_in_back[OF _ _ f] setListeners_plain[OF _ f] tracked(4)
      by (simp add: keeps_invariants_def)
  qed
next
  fix s f s' assume a: "final (update_prepare s f) = Some s'"
  show "keeps_invariants s s'"
    using graph_cong(1,3)[OF update_prepare_graph[OF a]] by (simp add: keeps_invariants_def)
next
  fix s a p v s' assume "store a p v (log_event (Wrote a p) s) = Some s'"
  then show "keeps_invariants s s'" using store_graph(5,6) by (fastforce simp: keeps_invariants_def)
next
  fix s r s' assume "final (enter r s) = Some s'"
  then show "keeps_invariants s s'"
    using enter_invariants by (simp add: keeps_invariants_def)
qed (simp_all add: keeps_invariants_def)

lemma merge_ok_keeps_invariants: "merge_ok keeps_invariants"
proof (rule merge_okI)
  show "quasi_order keeps_invariants" using prims_ok_keeps_invariants by (rule prims_okD(1))
  show "keeps_invariants s s'" if "store a p v s = Some s'" for s a p v s'
    using store_graph(5,6)[OF that] by (simp add: keeps_invariants_def)
  show "keeps_invariants s (leave r kvs s)" for s r kvs by (simp add: keeps_invariants_def)
qed

lemmas run_ok_keeps_invariants =
  reactor_rel[OF prims_ok_keeps_invariants merge_ok_keeps_invariants]

lemma run_script_invariants:
  assumes "forward_in_back st" "plain st" "final (run_script n P c st) = Some st'"
  shows "forward_in_back st'" "plain st'"
  using exec_rel[OF prims_ok_keeps_invariants run_ok_keeps_invariants, of n P c st st'] assms
  by (simp_all add: run_script_def keeps_invariants_def)

lemma signal_of_graph [simp]:
  "own_listeners (snd (signal_of st ob)) = own_listeners st"
  "own_signals (snd (signal_of st ob)) = own_signals st"
  by (simp_all add: signal_of_def new_object_def signal_def own_listeners_def own_signals_def
      fun_eq_iff)

section \<open>A run stores only what user code writes and what results hold\<close>

lemma map_of_own_putProp:
  assumes "putProp ob p v = Some ob'" "k \<noteq> p"
  shows "map_of (own ob') k = map_of (own ob) k"
  using assms by (auto simp: putProp_def update_conv' split: if_splits)

lemma map_of_own_delProp:
  "map_of (own (delProp ob p)) k = (if k = p then None else map_of (own ob) k)"
  by (simp add: delProp_def delete_conv')

lemma hasOwn_delProp [simp]: "hasOwn (delProp ob p) q = (q \<noteq> p \<and> hasOwn ob q)"
  by (auto simp: hasOwn_def delProp_def delete_conv')

lemma getProp_delProp_other: "q \<noteq> p \<Longrightarrow> getProp (delProp ob p) q = getProp ob q"
  by (cases "map_of (own ob) q") (simp_all add: getProp_def delProp_def delete_conv')

lemma is_symbol_no_index: "is_symbol k \<Longrightarrow> array_index k = None"
  by (cases k) simp_all

lemma set_OwnPropertyKeys [simp]: "set (OwnPropertyKeys props) = set props"
  using is_symbol_no_index by (auto simp: OwnPropertyKeys_def)

lemma keys_foldl_update:
  "fst ` set (foldl (\<lambda>ob kv. AList.update (fst kv) (snd kv) ob) acc props)
     = fst ` set acc \<union> fst ` set props"
proof (induction props arbitrary: acc)
  case Nil
  then show ?case by simp
next
  case (Cons kv props)
  show ?case using Cons.IH[of "AList.update (fst kv) (snd kv) acc"] by (simp add: dom_update)
qed

lemma keys_result_object [simp]: "fst ` set (result_object props) = fst ` set props"
  by (simp add: result_object_def keys_foldl_update)

lemma frame_refl: "frame s s"
  by (simp add: frame_def)

lemma frame_trans:
  assumes "frame a b" "frame b c"
  shows "frame a c"
proof -
  have e: "extends a b" "extends b c" using assms by (simp_all add: frame_def)
  have split: "since a c = since a b @ since b c" using since_trans[OF e] .
  have n: "nobjs a \<le> nobjs b" "nobjs b \<le> nobjs c" using assms by (simp_all add: frame_def)
  have "\<exists>e \<in> set (since a c). touches x k e"
    if x: "x < nobjs a" and ch: "map_of (own (heap c x)) k \<noteq> map_of (own (heap a x)) k" for x k
  proof (cases "map_of (own (heap b x)) k = map_of (own (heap a x)) k")
    case True
    then have "map_of (own (heap c x)) k \<noteq> map_of (own (heap b x)) k" using ch by simp
    moreover have "x < nobjs b" using x n by simp
    ultimately have "\<exists>e \<in> set (since b c). touches x k e"
      using assms(2) unfolding frame_def by blast
    then show ?thesis by (auto simp: split)
  next
    case False
    then have "\<exists>e \<in> set (since a b). touches x k e"
      using assms(1) x unfolding frame_def by blast
    then show ?thesis by (auto simp: split)
  qed
  then show ?thesis
    using extends_trans[OF e] n unfolding frame_def by simp
qed

lemma frame_same_heap:
  assumes "extends s s'" "nobjs s \<le> nobjs s'" "\<forall>a < nobjs s. heap s' a = heap s a"
  shows "frame s s'"
  using assms by (simp add: frame_def)

lemma store_other:
  assumes "store a p v s = Some s1" "\<not> (x = a \<and> k = p)"
  shows "map_of (own (heap s1 x)) k = map_of (own (heap s x)) k"
proof -
  obtain ob where ob: "putProp (heap s a) p v = Some ob" "heap s1 = (heap s)(a := ob)"
    using store_fields(7)[OF assms(1)] by blast
  show ?thesis
  proof (cases "x = a")
    case True
    then have "k \<noteq> p" using assms(2) by simp
    then show ?thesis using map_of_own_putProp[OF ob(1)] True ob(2) by simp
  next
    case False
    then show ?thesis using ob(2) by simp
  qed
qed

lemma frame_touched_store:
  assumes "frame s0 s" "\<exists>e \<in> set (since s0 s). touches a p e" "store a p v s = Some s1"
  shows "frame s0 s1"
proof -
  have tr: "trace s1 = trace s" using store_fields(1)[OF assms(3)] .
  have nb: "nobjs s1 = nobjs s" using store_fields(2)[OF assms(3)] .
  have e: "extends s0 s" using assms(1) by (simp add: frame_def)
  then have e': "extends s0 s1" using tr by (simp add: extends_def)
  have sn: "since s0 s1 = since s0 s" using tr by (simp add: since_def)
  have "\<exists>e \<in> set (since s0 s). touches x k e"
    if x: "x < nobjs s0"
      and ch: "map_of (own (heap s1 x)) k \<noteq> map_of (own (heap s0 x)) k" for x k
  proof (cases "x = a \<and> k = p")
    case True
    then show ?thesis using assms(2) by simp
  next
    case False
    then have "map_of (own (heap s1 x)) k = map_of (own (heap s x)) k"
      using store_other[OF assms(3)] by blast
    then have "map_of (own (heap s x)) k \<noteq> map_of (own (heap s0 x)) k" using ch by simp
    then show ?thesis using assms(1) x unfolding frame_def by blast
  qed
  then show ?thesis
    using e' assms(1) nb unfolding frame_def by (simp add: sn)
qed

lemma frame_user_store:
  assumes "store a p v (log_event (Wrote a p) s) = Some s'"
  shows "frame s s'"
proof (rule frame_touched_store[OF _ _ assms])
  show "frame s (log_event (Wrote a p) s)"
    by (rule frame_same_heap) (simp_all add: extends_def)
  show "\<exists>e \<in> set (since s (log_event (Wrote a p) s)). touches a p e"
    by (simp add: since_def)
qed

lemma frame_user_remove: "frame s (remove a p (log_event (Wrote a p) s))"
proof -
  have "\<exists>e \<in> set (since s (remove a p (log_event (Wrote a p) s))). touches x k e"
    if "map_of (own (heap (remove a p (log_event (Wrote a p) s)) x)) k \<noteq> map_of (own (heap s x)) k"
    for x k
  proof (cases "x = a \<and> k = p")
    case True
    then show ?thesis by (simp add: since_def)
  next
    case False
    then have "map_of (own (heap (remove a p (log_event (Wrote a p) s)) x)) k = map_of (own (heap s x)) k"
      by (auto simp: map_of_own_delProp)
    then show ?thesis using that by simp
  qed
  then show ?thesis unfolding frame_def by (simp add: extends_def)
qed

lemma prims_ok_frame: "prims_ok frame"
  unfolding prims_ok_def quasi_order_def
proof (intro conjI allI impI)
  fix s show "frame s s" by (rule frame_refl)
next
  fix a b c assume "frame a b" "frame b c"
  then show "frame a c" by (rule frame_trans)
next
  fix s recv p s' assume a: "final (notifyGet s recv p) = Some s'"
  show "frame s s'"
    using notifyGet_log(2)[OF a] notifyGet_fields(1,2)[OF a] by (simp add: frame_same_heap)
next
  fix s a p show "frame s (log_event (Wrote a p) s)"
    by (rule frame_same_heap) (simp_all add: extends_def)
next
  fix s f show "frame s (log_event (Called f) s)"
    by (rule frame_same_heap) (simp_all add: extends_def)
next
  fix s a p v s' assume "store a p v (log_event (Wrote a p) s) = Some s'"
  then show "frame s s'" by (rule frame_user_store)
next
  fix s a p show "frame s (remove a p (log_event (Wrote a p) s))"
    by (rule frame_user_remove)
next
  fix s f s' assume a: "final (update_prepare s f) = Some s'"
  show "frame s s'"
    using update_prepare_fields(1,5,6)[OF a] by (simp add: frame_same_heap extends_def)
next
  fix s r s' assume a: "final (enter r s) = Some s'"
  show "frame s s'"
    using enter_log(1)[OF a] enter_fields(1,2)[OF a] by (simp add: frame_same_heap)
qed

lemma quasi_order_frame: "quasi_order frame"
  using prims_ok_frame by (rule prims_okD(1))

lemma assign_each_frame:
  assumes ok: "run_ok frame run"
  shows "frame s0 st \<Longrightarrow> Merged (target_of out) ks \<in> set (since s0 st) \<Longrightarrow>
     fst ` set kvs \<subseteq> set ks \<Longrightarrow> final (assign_each run out kvs st) = Some st' \<Longrightarrow>
     frame s0 st'"
proof (induction kvs arbitrary: st)
  case Nil
  then show ?case by simp
next
  case (Cons kv kvs)
  obtain k v where kv: "kv = (k, v)" by (cases kv)
  have kin: "k \<in> set ks" using Cons.prems(3) kv by simp
  have touched: "\<exists>e \<in> set (since s0 st). touches (target_of out) k e"
    using Cons.prems(2) kin by force
  have step: "frame s0 s1 \<and> Merged (target_of out) ks \<in> set (since s0 s1)"
    if fin: "final (Proxy_set run st out k v) = Some s1" for s1
  proof -
    from Proxy_set_rel[OF quasi_order_frame ok fin]
    have alt: "s1 = st \<or> (\<exists>st1. store (target_of out) k v st = Some st1 \<and> frame st1 s1)" .
    have f: "frame s0 s1"
      using alt Cons.prems(1) frame_touched_store[OF Cons.prems(1) touched] frame_trans by blast
    have "extends st s1"
      using alt store_fields(1) by (fastforce simp: frame_def extends_def)
    moreover have "extends s0 st" using Cons.prems(1) by (simp add: frame_def)
    ultimately have "since s0 s1 = since s0 st @ since st s1" using since_trans by blast
    then show ?thesis using f Cons.prems(2) by simp
  qed
  from Cons.prems(4) kv
  have "final (bind (Proxy_set run st out k v)
       (\<lambda>ok st'. if ok then assign_each run out kvs st' else Raise TypeError st')) = Some st'"
    by simp
  then show ?case
  proof (cases rule: final_bindE)
    case (raise e)
    then show ?thesis using step[of st'] by simp
  next
    case (normal okv s1)
    then have s1: "frame s0 s1" "Merged (target_of out) ks \<in> set (since s0 s1)"
      using step[of s1] by simp_all
    show ?thesis
    proof (cases okv)
      case True
      then have "final (assign_each run out kvs s1) = Some st'" using normal(2) by simp
      then show ?thesis using Cons.IH[OF s1] Cons.prems(3) by simp
    next
      case False
      then show ?thesis using normal(2) s1 by simp
    qed
  qed
qed

lemma merge_ok_frame: "merge_ok frame"
  unfolding merge_ok_def
proof (intro allI impI)
  fix run r kvs s s'
  assume ok: "run_ok frame run"
    and fin: "final (Object_assign run (closure_signal r) kvs (leave r kvs s)) = Some s'"
  have a: "frame s (leave r kvs s)"
    by (rule frame_same_heap) (simp_all add: extends_def)
  have b: "Merged (target_of (closure_signal r)) (map fst kvs) \<in> set (since s (leave r kvs s))"
    by (simp add: since_def)
  have c: "fst ` set (OwnPropertyKeys (result_object kvs)) \<subseteq> set (map fst kvs)"
    by simp
  have d: "final (assign_each run (closure_signal r) (OwnPropertyKeys (result_object kvs))
      (leave r kvs s)) = Some s'"
    using fin unfolding Object_assign_def .
  show "frame s s'"
    using assign_each_frame[OF ok a b c d] .
qed

lemmas run_ok_frame = reactor_rel[OF prims_ok_frame merge_ok_frame]

section \<open>A call that returns leaves the tracker stack as it found it\<close>

lemma for_each_computeStack:
  assumes "\<And>x s s'. f x s = Normal () s' \<Longrightarrow> computeStack s' = computeStack s"
  shows "for_each f ls st = Normal () st' \<Longrightarrow> computeStack st' = computeStack st"
proof (induction ls arbitrary: st)
  case Nil
  then show ?case by simp
next
  case (Cons l ls)
  from Cons.prems have "bind (f l st) (\<lambda>_ s. for_each f ls s) = Normal () st'" by simp
  then obtain x s1 where s1: "f l st = Normal x s1" "for_each f ls s1 = Normal () st'"
    by (rule bind_NormalE)
  have "computeStack s1 = computeStack st" using assms s1(1) by simp
  then show ?case using Cons.IH[OF s1(2)] by simp
qed

lemma notifySet_computeStack:
  assumes "run_balanced run" "notifySet run st recv p = Normal () st'"
  shows "computeStack st' = computeStack st"
proof (cases "getListeners st recv p")
  case Missing
  then show ?thesis using assms(2) by (simp add: notifySet_def)
next
  case (Members ls)
  then have "for_each run ls st = Normal () st'" using assms(2) by (simp add: notifySet_def)
  then show ?thesis
    using for_each_computeStack[of run ls st st'] assms(1) unfolding run_balanced_def by blast
next
  case (Inherited n)
  then show ?thesis using assms(2) by (cases "n = 0") (simp_all add: notifySet_def)
qed

lemma Proxy_set_computeStack:
  assumes "run_balanced run" "Proxy_set run st s p v = Normal ok st'"
  shows "computeStack st' = computeStack st"
proof (cases "strict_eq (getProp (heap st (target_of s)) p) v")
  case True
  then show ?thesis using assms(2) by (simp add: Proxy_set_def signalHandler_set_def)
next
  case False
  show ?thesis
  proof (cases "store (target_of s) p v st")
    case None
    then show ?thesis using assms(2) False by (simp add: Proxy_set_def signalHandler_set_def)
  next
    case (Some st1)
    then have "bind (bind (notifySet run st1 (Some s) p) (\<lambda>_ s'. Normal (VBool True) s'))
        (\<lambda>r s'. Normal (ToBoolean r) s') = Normal ok st'"
      using assms(2) False by (simp add: Proxy_set_def signalHandler_set_def)
    then have "notifySet run st1 (Some s) p = Normal () st'"
      by (cases "notifySet run st1 (Some s) p") simp_all
    then have "computeStack st' = computeStack st1" by (rule notifySet_computeStack[OF assms(1)])
    then show ?thesis using store_fields(5)[OF Some] by simp
  qed
qed

lemma Proxy_delete_computeStack:
  assumes "Proxy_delete run st s p = Normal ok st'"
  shows "computeStack st' = computeStack st"
  using assms
  by (cases "getProp (heap st (target_of s)) p = VUndef")
     (auto simp: Proxy_delete_def signalHandler_deleteProperty_def notifySet_def getListeners_def)

lemma assign_each_computeStack:
  assumes "run_balanced run"
  shows "assign_each run out kvs st = Normal () st' \<Longrightarrow> computeStack st' = computeStack st"
proof (induction kvs arbitrary: st)
  case Nil
  then show ?case by simp
next
  case (Cons kv kvs)
  obtain k v where kv: "kv = (k, v)" by (cases kv)
  from Cons.prems kv
  have "bind (Proxy_set run st out k v)
      (\<lambda>ok s. if ok then assign_each run out kvs s else Raise TypeError s) = Normal () st'"
    by simp
  then obtain ok s1 where s1: "Proxy_set run st out k v = Normal ok s1"
    "(if ok then assign_each run out kvs s1 else Raise TypeError s1) = Normal () st'"
    by (rule bind_NormalE)
  have "computeStack s1 = computeStack st" using Proxy_set_computeStack[OF assms s1(1)] .
  moreover have "assign_each run out kvs s1 = Normal () st'" using s1(2) by (cases ok) simp_all
  ultimately show ?case using Cons.IH by simp
qed

lemma update_with_computeStack:
  assumes "run_balanced run" "update_with run st fn = Normal out st'"
  shows "computeStack st' = computeStack st"
proof -
  from assms(2) obtain r s1 where s1: "update_prepare st fn = Normal r s1"
    "bind (run r s1) (\<lambda>_ s. Normal (closure_signal r) s) = Normal out st'"
    unfolding update_with_def by (rule bind_NormalE)
  have "final (update_prepare st fn) = Some s1" using s1(1) by simp
  then have "computeStack s1 = computeStack st" by (rule update_prepare_fields(4))
  moreover from s1(2) obtain x where "run r s1 = Normal x st'"
    by (cases "run r s1") auto
  then have "computeStack st' = computeStack s1" using assms(1) by (simp add: run_balanced_def)
  ultimately show ?thesis by simp
qed

lemma exec_computeStack:
  assumes "run_balanced run"
  shows "exec run c st = Normal kvs st' \<Longrightarrow> computeStack st' = computeStack st"
proof (induction c arbitrary: st)
  case (Return x)
  then show ?case by simp
next
  case Throw
  then show ?case by simp
next
  case (SigGet s p k)
  from SigGet.prems obtain v s1 where s1: "Proxy_get st s p = Normal v s1"
    "exec run (k v) s1 = Normal kvs st'"
    by (auto elim: bind_NormalE)
  have "final (notifyGet st (Some s) p) = Some s1"
    using s1(1) final_Proxy_get[of st s p] by simp
  then have "computeStack s1 = computeStack st" by (rule notifyGet_fields(3))
  then show ?case using SigGet.IH[of "k v" s1] s1(2) by simp
next
  case (SigSet s p v c)
  from SigSet.prems obtain ok s1 where
    s1: "Proxy_set run (log_event (Wrote (target_of s) p) st) s p v = Normal ok s1"
    "exec run c s1 = Normal kvs st'"
    by (auto elim: bind_NormalE)
  have "computeStack s1 = computeStack st" using Proxy_set_computeStack[OF assms s1(1)] by simp
  then show ?case using SigSet.IH[OF s1(2)] by simp
next
  case (SigHas s p k)
  from SigHas.prems obtain b s1 where s1: "Proxy_has st s p = Normal b s1"
    "exec run (k b) s1 = Normal kvs st'"
    by (auto elim: bind_NormalE)
  have "final (notifyGet st None p) = Some s1"
    using s1(1) final_Proxy_has[of st s p] by simp
  then have "computeStack s1 = computeStack st" by (rule notifyGet_fields(3))
  then show ?case using SigHas.IH[of "k b" s1] s1(2) by simp
next
  case (SigDelete strict s p k)
  from SigDelete.prems obtain ok s1 where
    s1: "Proxy_delete run (log_event (Wrote (target_of s) p) st) s p = Normal ok s1"
    "(if strict \<and> \<not> ok then Raise TypeError s1 else exec run (k ok) s1) = Normal kvs st'"
    by (auto elim: bind_NormalE)
  have "computeStack s1 = computeStack st" using Proxy_delete_computeStack[OF s1(1)] by simp
  moreover have "exec run (k ok) s1 = Normal kvs st'"
    using s1(2) by (cases "strict \<and> \<not> ok") simp_all
  ultimately show ?case using SigDelete.IH[of "k ok" s1] by simp
next
  case (CallUpdate fn k)
  from CallUpdate.prems obtain out s1 where
    s1: "update_with run (log_event (Called fn) st) fn = Normal out s1"
    "exec run (k out) s1 = Normal kvs st'"
    by (auto elim: bind_NormalE)
  have "computeStack s1 = computeStack st" using update_with_computeStack[OF assms s1(1)] by simp
  then show ?case using CallUpdate.IH[of "k out" s1] s1(2) by simp
next
  case (RawGet a p k)
  then show ?case using RawGet.IH[of "k (getProp (heap st a) p)" st] by simp
next
  case (RawSet a p v c)
  show ?case
  proof (cases "store a p v (log_event (Wrote a p) st)")
    case None
    then show ?thesis using RawSet.prems by simp
  next
    case (Some s1)
    then have "computeStack s1 = computeStack st" using store_fields(5)[OF Some] by simp
    then show ?thesis using RawSet.IH[of s1] RawSet.prems Some by simp
  qed
qed

lemma reactor_balanced: "run_balanced (reactor n P)"
proof (induction n)
  case 0
  then show ?case by (simp add: run_balanced_def)
next
  case (Suc n)
  show ?case unfolding run_balanced_def
  proof (intro allI impI)
    fix r s s'
    assume "reactor (Suc n) P r s = Normal () s'"
    then obtain u s0 result s1 where s0: "enter r s = Normal u s0"
      and s1: "exec (reactor n P) (P (closure_fn r)) s0 = Normal result s1"
      "Object_assign (reactor n P) (closure_signal r) result (leave r result s1) = Normal () s'"
      by (auto elim!: bind_NormalE)
    have "final (enter r s) = Some s0" using s0 by simp
    then have "computeStack s0 = computeStack s @ [r]"
    proof (cases rule: enter_cases)
      case (failed e)
      then show ?thesis using s0 by simp
    next
      case (entered st1)
      have "final (clearListeners s r) = Some st1" using entered(1) by simp
      then have "computeStack st1 = computeStack s"
        using shrinks_fields(5)[OF clearListeners_shrinks] by blast
      then show ?thesis using entered(2) by simp
    qed
    then have "computeStack s1 = computeStack s @ [r]" using exec_computeStack[OF Suc s1(1)] by simp
    then have "computeStack (leave r result s1) = computeStack s" by simp
    then show "computeStack s' = computeStack s"
      using assign_each_computeStack[OF Suc] s1(2) unfolding Object_assign_def by fastforce
  qed
qed

lemma update_returning_restores_computeStack:
  assumes "update n P st fn = Normal out st'"
  shows "computeStack st' = computeStack st"
  using update_with_computeStack[OF reactor_balanced] assms by (simp add: update_def)

section \<open>The scenario of the specification\<close>

text \<open>Right after the registration \<^verbatim>\<open>copy.seen\<close> is 0; after \<^verbatim>\<open>counter.n = 5\<close> it
  is 5, with no further call of \<^verbatim>\<open>update\<close>.\<close>

lemma end_to_end_copy:
  "returned (run_script 1 copies_counter read_set_read counter_signal)
     = Some [(Name ''before'', VNum 0), (Name ''after'', VNum 5)]"
  by code_simp

section \<open>C1: a second update of the same function\<close>

text \<open>
  Claim C1. After a top-level call \<^verbatim>\<open>update(fn)\<close> has completed, a second call with
  the same function should succeed and return the same output signal. The source pushes
  \<^verbatim>\<open>fn\<close> on \<open>reactStack\<close> and has no pop, so on the failing input (a function that
  returns \<^verbatim>\<open>{}\<close>, registered twice from the initial state) the first call returns
  with \<^verbatim>\<open>fn\<close> still on the stack and the second call throws the recursion error.
\<close>

theorem update_second_call_raises:
  "returned (run_script 1 returns_empty update_once init) = Some [(Name ''out'', VSig (Proxy 0 0))]
   \<and> map_option reactStack (final (run_script 1 returns_empty update_once init)) = Some [0]
   \<and> raised (run_script 1 returns_empty update_twice init) = Some (RecursiveInvocation 0)"
  by code_simp

text \<open>The same holds of every function and every state: once a call of \<^verbatim>\<open>update(fn)\<close>
  has ended, by returning or by throwing, every later \<^verbatim>\<open>update(fn)\<close> throws the
  recursion error.\<close>

lemma later_update_always_raises:
  assumes "final (update n P st fn) = Some st'"
  shows "update m Q st' fn = Raise (RecursiveInvocation fn) st'"
proof -
  have fin: "final (bind (update_prepare st fn)
      (\<lambda>r s. bind (reactor n P r s) (\<lambda>_ s'. Normal (closure_signal r) s'))) = Some st'"
    using assms by (simp add: update_def update_with_def)
  have "fn \<in> set (reactStack st')"
    using fin
  proof (cases rule: final_bindE)
    case (raise e)
    then have "final (update_prepare st fn) = Some st'" by simp
    then show ?thesis by (rule update_prepare_pushes)
  next
    case (normal r s1)
    then have "final (update_prepare st fn) = Some s1" by simp
    then have "fn \<in> set (reactStack s1)" by (rule update_prepare_pushes)
    moreover have "final (reactor n P r s1) = Some st'" using normal(2) by simp
    then have "reactStack_grows s1 st'" by (rule run_okD[OF run_ok_reactStack_grows])
    ultimately show ?thesis by (auto simp: reactStack_grows_def)
  qed
  then show ?thesis by (simp add: update_def update_with_def update_prepare_def)
qed

section \<open>What a clear removes\<close>

lemma unlisten_Normal:
  assumes "inherited_length p = None"
  shows "\<exists>st'. unlisten c p s st = Normal () st'
      \<and> (\<forall>x q. listeners_of st' x q =
            (if x = s \<and> q = p then Set_delete c (listeners_of st s p) else listeners_of st x q))"
proof (cases "listenersMap st s")
  case None
  then have "unlisten c p s st = Normal () st" by (simp add: unlisten_def)
  moreover have "listeners_of st s p = []"
    using None by (simp add: listeners_of_def own_listeners_def)
  ultimately show ?thesis by (simp add: Set_delete_def)
next
  case (Some l)
  show ?thesis
  proof (cases "l p")
    case None
    then have "unlisten c p s st = Normal () st"
      using Some assms by (simp add: unlisten_def lookup_def)
    moreover have "listeners_of st s p = []"
      using None Some by (simp add: listeners_of_def own_listeners_def)
    ultimately show ?thesis by (simp add: Set_delete_def)
  next
    case lset: (Some lset)
    define st' where "st' = st\<lparr>listenersMap := (listenersMap st)(s \<mapsto> l(p \<mapsto> Set_delete c lset))\<rparr>"
    have run: "unlisten c p s st = Normal () st'"
      using Some lset by (simp add: unlisten_def lookup_def st'_def)
    have was: "listeners_of st s p = lset"
      using Some lset by (simp add: listeners_of_def own_listeners_def)
    have "listeners_of st' x q =
        (if x = s \<and> q = p then Set_delete c (listeners_of st s p) else listeners_of st x q)" for x q
      using Some was by (simp add: st'_def listeners_of_def own_listeners_def)
    then show ?thesis using run by blast
  qed
qed

lemma for_each_unlisten_Normal:
  assumes "inherited_length p = None"
  shows "\<exists>st'. for_each (unlisten c p) sigs st = Normal () st'
      \<and> (\<forall>x q. set (listeners_of st' x q) =
            (if q = p \<and> x \<in> set sigs then set (listeners_of st x q) - {c}
             else set (listeners_of st x q)))"
proof (induction sigs arbitrary: st)
  case Nil
  then show ?case by simp
next
  case (Cons s sigs)
  obtain s1 where s1: "unlisten c p s st = Normal () s1"
    and l1: "\<And>x q. listeners_of s1 x q =
            (if x = s \<and> q = p then Set_delete c (listeners_of st s p) else listeners_of st x q)"
    using unlisten_Normal[OF assms, of c s st] by blast
  obtain st' where st': "for_each (unlisten c p) sigs s1 = Normal () st'"
    and l2: "\<And>x q. set (listeners_of st' x q) =
            (if q = p \<and> x \<in> set sigs then set (listeners_of s1 x q) - {c}
             else set (listeners_of s1 x q))"
    using Cons.IH[of s1] by blast
  have "for_each (unlisten c p) (s # sigs) st = Normal () st'" using s1 st' by simp
  moreover have "set (listeners_of st' x q) =
            (if q = p \<and> x \<in> set (s # sigs) then set (listeners_of st x q) - {c}
             else set (listeners_of st x q))" for x q
    by (auto simp: l1 l2)
  ultimately show ?case by blast
qed

lemma for_each_keys_Normal:
  assumes "\<forall>p \<in> set ks. inherited_length p = None"
  shows "\<exists>st'. for_each (\<lambda>property. for_each (unlisten c property) (sg property)) ks st
          = Normal () st'
      \<and> (\<forall>x q. set (listeners_of st' x q) =
            (if q \<in> set ks \<and> x \<in> set (sg q) then set (listeners_of st x q) - {c}
             else set (listeners_of st x q)))"
  using assms
proof (induction ks arbitrary: st)
  case Nil
  then show ?case by simp
next
  case (Cons k ks)
  have nk: "inherited_length k = None" using Cons.prems by simp
  obtain s1 where s1: "for_each (unlisten c k) (sg k) st = Normal () s1"
    and l1: "\<And>x q. set (listeners_of s1 x q) =
            (if q = k \<and> x \<in> set (sg k) then set (listeners_of st x q) - {c}
             else set (listeners_of st x q))"
    using for_each_unlisten_Normal[OF nk, of c "sg k" st] by blast
  obtain st' where st': "for_each (\<lambda>property. for_each (unlisten c property) (sg property)) ks s1
          = Normal () st'"
    and l2: "\<And>x q. set (listeners_of st' x q) =
            (if q \<in> set ks \<and> x \<in> set (sg q) then set (listeners_of s1 x q) - {c}
             else set (listeners_of s1 x q))"
    using Cons.IH[of s1] Cons.prems by auto
  have "for_each (\<lambda>property. for_each (unlisten c property) (sg property)) (k # ks) st
          = Normal () st'"
    using s1 st' by simp
  moreover have "set (listeners_of st' x q) =
            (if q \<in> set (k # ks) \<and> x \<in> set (sg q) then set (listeners_of st x q) - {c}
             else set (listeners_of st x q))" for x q
    by (auto simp: l1 l2)
  ultimately show ?case by blast
qed

lemma set_Object_keys: "set (Object_keys props) = {k \<in> fst ` set props. \<not> is_symbol k}"
  by (auto simp: Object_keys_def)

lemma clearListeners_Normal:
  assumes "plain st"
  shows "\<exists>st'. clearListeners st r = Normal () st'
      \<and> (\<forall>x q. set (listeners_of st' x q) =
            (if \<not> is_symbol q \<and> x \<in> set (back_of st r q) then set (listeners_of st x q) - {r}
             else set (listeners_of st x q)))"
proof (cases "computeMap st r")
  case None
  then have "clearListeners st r = Normal () st" by (simp add: clearListeners_def)
  moreover have "back_of st r q = []" for q
    using None by (simp add: back_of_def own_signals_def)
  ultimately show ?thesis by simp
next
  case (Some cs)
  have own: "own_signals st r q = map_of cs q" for q using Some by (simp add: own_signals_def)
  have names: "\<forall>p \<in> set (Object_keys cs). inherited_length p = None"
  proof
    fix p assume "p \<in> set (Object_keys cs)"
    then have "p \<in> fst ` set cs" by (simp add: set_Object_keys)
    then have "map_of cs p \<noteq> None" by (simp add: map_of_eq_None_iff)
    then have "own_signals st r p \<noteq> None" by (simp add: own)
    then show "inherited_length p = None" using assms unfolding plain_def by blast
  qed
  have sg: "(\<lambda>property. for_each (unlisten r property)
               (members (lookup (map_of cs property) property)))
      = (\<lambda>property. for_each (unlisten r property) (back_of st r property))"
    by (simp add: fun_eq_iff back_of_def own)
  obtain st' where st': "for_each
            (\<lambda>property. for_each (unlisten r property) (back_of st r property))
            (Object_keys cs) st = Normal () st'"
    and ls: "\<And>x q. set (listeners_of st' x q) =
            (if q \<in> set (Object_keys cs) \<and> x \<in> set (back_of st r q)
             then set (listeners_of st x q) - {r}
             else set (listeners_of st x q))"
    using for_each_keys_Normal[OF names, of r "back_of st r" st] by blast
  have "clearListeners st r = for_each
            (\<lambda>property. for_each (unlisten r property)
               (members (lookup (map_of cs property) property)))
            (Object_keys cs) st"
    unfolding clearListeners_def Some by (simp only: option.case)
  then have run: "clearListeners st r = Normal () st'"
    using st' unfolding sg by simp
  have key: "(q \<in> set (Object_keys cs) \<and> x \<in> set (back_of st r q))
      = (\<not> is_symbol q \<and> x \<in> set (back_of st r q))" for x q
  proof (cases "map_of cs q")
    case None
    then show ?thesis by (simp add: back_of_def own)
  next
    case (Some ss)
    then have "q \<in> fst ` set cs" by (metis map_of_eq_None_iff option.distinct(1))
    then show ?thesis by (simp add: set_Object_keys)
  qed
  have "set (listeners_of st' x q) =
            (if \<not> is_symbol q \<and> x \<in> set (back_of st r q) then set (listeners_of st x q) - {r}
             else set (listeners_of st x q))" for x q
    unfolding ls[of x q] key[of q x] ..
  then show ?thesis using run by blast
qed

text \<open>In a state the module reaches, \<^verbatim>\<open>clearListeners\<close> returns; it has removed the
  reactor from the listeners of every signal property whose key is a string, and has
  left the listeners of every property whose key is a symbol as they were.\<close>

lemma clear_prunes_string_keys:
  assumes "forward_in_back st" "plain st" "\<not> is_symbol q"
  shows "\<exists>st'. clearListeners st r = Normal () st' \<and> r \<notin> set (listeners_of st' x q)"
proof -
  obtain st' where run: "clearListeners st r = Normal () st'"
    and ls: "\<And>x q. set (listeners_of st' x q) =
            (if \<not> is_symbol q \<and> x \<in> set (back_of st r q) then set (listeners_of st x q) - {r}
             else set (listeners_of st x q))"
    using clearListeners_Normal[OF assms(2), of r] by blast
  have "r \<notin> set (listeners_of st' x q)"
  proof (cases "r \<in> set (listeners_of st x q)")
    case True
    then have "x \<in> set (back_of st r q)" using assms(1) unfolding forward_in_back_def by blast
    then show ?thesis using ls[of x q] assms(3) by simp
  next
    case False
    then show ?thesis using ls[of x q] by (simp split: if_splits)
  qed
  then show ?thesis using run by blast
qed

lemma clear_keeps_symbol_keys:
  assumes "plain st" "is_symbol q"
  shows "\<exists>st'. clearListeners st r = Normal () st'
      \<and> set (listeners_of st' x q) = set (listeners_of st x q)"
proof -
  obtain st' where run: "clearListeners st r = Normal () st'"
    and ls: "\<And>x q. set (listeners_of st' x q) =
            (if \<not> is_symbol q \<and> x \<in> set (back_of st r q) then set (listeners_of st x q) - {r}
             else set (listeners_of st x q))"
    using clearListeners_Normal[OF assms(1), of r] by blast
  show ?thesis using run ls[of x q] assms(2) by simp
qed

section \<open>A call of update on a function that is on the run-guard stack\<close>

lemma guarded_quiet:
  assumes "\<And>s'. final res = Some s' \<Longrightarrow> Called fn \<notin> set (since s s')"
  shows "guarded fn s res"
  using assms unfolding guarded_def by blast

lemma guarded_same:
  assumes "trace s1 = trace s" "reactStack s1 = reactStack s" "guarded fn s1 res"
  shows "guarded fn s res"
  using assms unfolding guarded_def by (simp add: since_def)

lemma guarded_step:
  assumes "trace s1 = trace s @ [e]" "e \<noteq> Called fn" "reactStack s1 = reactStack s"
    and "\<And>s'. final res = Some s' \<Longrightarrow> extends s1 s'"
    and "guarded fn s1 res"
  shows "guarded fn s res"
  unfolding guarded_def
proof (intro allI impI)
  fix s'
  assume on: "fn \<in> set (reactStack s)" and fin: "final res = Some s'"
    and called: "Called fn \<in> set (since s s')"
  obtain t where t: "trace s' = trace s1 @ t" using assms(4)[OF fin] by (auto simp: extends_def)
  have "since s s' = e # since s1 s'" using t assms(1) by (simp add: since_def)
  then have "Called fn \<in> set (since s1 s')" using called assms(2) by auto
  then show "raised res = Some (RecursiveInvocation fn)"
    using assms(5) on fin assms(3) unfolding guarded_def by simp
qed

lemma guarded_bind:
  assumes "guarded fn s m"
    and "\<And>x s1. m = Normal x s1 \<Longrightarrow>
          extends s s1 \<and> reactStack_grows s s1 \<and> guarded fn s1 (f x s1)"
    and "\<And>x s1 s'. m = Normal x s1 \<Longrightarrow> final (f x s1) = Some s' \<Longrightarrow> extends s1 s'"
  shows "guarded fn s (bind m f)"
  unfolding guarded_def
proof (intro allI impI)
  fix s'
  assume on: "fn \<in> set (reactStack s)" and fin: "final (bind m f) = Some s'"
    and called: "Called fn \<in> set (since s s')"
  from fin show "raised (bind m f) = Some (RecursiveInvocation fn)"
  proof (cases rule: final_bindE)
    case (raise e)
    then have "raised m = Some (RecursiveInvocation fn)"
      using assms(1) on called unfolding guarded_def by simp
    then show ?thesis using raise by simp
  next
    case (normal x s1)
    note a = assms(2)[OF normal(1)]
    have e2: "extends s1 s'" using assms(3)[OF normal] .
    have split: "since s s' = since s s1 @ since s1 s'" using since_trans a e2 by blast
    have "Called fn \<notin> set (since s s1)"
    proof
      assume "Called fn \<in> set (since s s1)"
      then have "raised m = Some (RecursiveInvocation fn)"
        using assms(1) on normal(1) unfolding guarded_def by simp
      then show False using normal(1) by simp
    qed
    then have "Called fn \<in> set (since s1 s')" using called by (simp add: split)
    moreover have "fn \<in> set (reactStack s1)" using a on by (auto simp: reactStack_grows_def)
    ultimately have "raised (f x s1) = Some (RecursiveInvocation fn)"
      using a normal(2) unfolding guarded_def by blast
    then show ?thesis using normal(1) by simp
  qed
qed

lemma guarded_bind_Normal [simp]:
  "guarded fn s (bind m (\<lambda>x s. Normal (g x s) s)) = guarded fn s m"
  by (simp add: guarded_def)

lemma run_guarded_ok:
  assumes "run_guarded fn run"
  shows "run_ok extends run" "run_ok reactStack_grows run"
  using assms unfolding run_guarded_def run_ok_def by blast+

lemma for_each_guarded:
  assumes "run_guarded fn run"
  shows "guarded fn st (for_each run ls st)"
proof (induction ls arbitrary: st)
  case Nil
  show ?case by (rule guarded_quiet) (simp add: since_def)
next
  case (Cons l ls)
  have "guarded fn st (bind (run l st) (\<lambda>_ s. for_each run ls s))"
  proof (rule guarded_bind)
    show "guarded fn st (run l st)" using assms unfolding run_guarded_def by blast
    show "extends st s1 \<and> reactStack_grows st s1 \<and> guarded fn s1 (for_each run ls s1)"
      if "run l st = Normal x s1" for x s1
      using that assms Cons.IH unfolding run_guarded_def by (metis final.simps(1))
    show "extends s1 s'" if "final (for_each run ls s1) = Some s'" for s1 s'
      using for_each_rel[OF quasi_order_extends, of run ls s1 s'] that
        run_okD[OF run_guarded_ok(1)[OF assms]]
      by blast
  qed
  then show ?case by simp
qed

lemma notifySet_guarded:
  assumes "run_guarded fn run"
  shows "guarded fn st (notifySet run st recv p)"
proof (cases "getListeners st recv p")
  case Missing
  show ?thesis by (rule guarded_quiet) (simp add: notifySet_def Missing since_def)
next
  case (Members ls)
  then show ?thesis using for_each_guarded[OF assms] by (simp add: notifySet_def)
next
  case (Inherited n)
  show ?thesis
    by (rule guarded_quiet) (cases "n = 0"; simp add: notifySet_def Inherited since_def)
qed

lemma Proxy_set_guarded:
  assumes "run_guarded fn run"
  shows "guarded fn st (Proxy_set run st s p v)"
proof (cases "strict_eq (getProp (heap st (target_of s)) p) v")
  case True
  show ?thesis
    by (rule guarded_quiet) (simp add: Proxy_set_def signalHandler_set_def True since_def)
next
  case False
  show ?thesis
  proof (cases "store (target_of s) p v st")
    case None
    show ?thesis
      by (rule guarded_quiet) (simp add: Proxy_set_def signalHandler_set_def False None)
  next
    case (Some st1)
    have "guarded fn st (notifySet run st1 (Some s) p)"
      using guarded_same[OF store_fields(1)[OF Some] store_fields(6)[OF Some]]
        notifySet_guarded[OF assms]
      by blast
    then show ?thesis by (simp add: Proxy_set_def signalHandler_set_def False Some)
  qed
qed

lemma Proxy_delete_guarded: "guarded fn st (Proxy_delete run st s p)"
  by (rule guarded_quiet)
     (cases "getProp (heap st (target_of s)) p = VUndef";
      simp add: Proxy_delete_def signalHandler_deleteProperty_def notifySet_def getListeners_def
        since_def)

lemma Proxy_get_guarded: "guarded fn st (Proxy_get st s p)"
proof (rule guarded_quiet)
  fix s' assume "final (Proxy_get st s p) = Some s'"
  then have "final (notifyGet st (Some s) p) = Some s'" by (simp add: final_Proxy_get)
  then show "Called fn \<notin> set (since st s')" using notifyGet_log(1) by fastforce
qed

lemma Proxy_has_guarded: "guarded fn st (Proxy_has st s p)"
proof (rule guarded_quiet)
  fix s' assume "final (Proxy_has st s p) = Some s'"
  then have "final (notifyGet st None p) = Some s'" by (simp add: final_Proxy_has)
  then show "Called fn \<notin> set (since st s')" using notifyGet_log(1) by fastforce
qed

lemma update_with_guarded:
  assumes "run_guarded fn run"
  shows "guarded fn st (update_with run st f)"
  unfolding update_with_def
proof (rule guarded_bind)
  show "guarded fn st (update_prepare st f)"
  proof (rule guarded_quiet)
    fix s' assume "final (update_prepare st f) = Some s'"
    then show "Called fn \<notin> set (since st s')"
      using update_prepare_fields(1) by (simp add: since_def)
  qed
  show "extends st s1 \<and> reactStack_grows st s1
      \<and> guarded fn s1 (bind (run x s1) (\<lambda>_ st''. Normal (closure_signal x) st''))"
    if "update_prepare st f = Normal x s1" for x s1
  proof -
    have fin: "final (update_prepare st f) = Some s1" using that by simp
    have "extends st s1" using update_prepare_fields(1)[OF fin] by (simp add: extends_def)
    moreover have "reactStack_grows st s1"
      using update_prepare_reactStack[OF fin] by (simp add: reactStack_grows_def)
    moreover have "guarded fn s1 (run x s1)" using assms unfolding run_guarded_def by blast
    ultimately show ?thesis by simp
  qed
  show "extends s1 s'"
    if "final (bind (run x s1) (\<lambda>_ st''. Normal (closure_signal x) st'')) = Some s'" for x s1 s'
    using that run_okD[OF run_guarded_ok(1)[OF assms]] by simp
qed

lemma exec_guarded:
  assumes rg: "run_guarded fn run"
  shows "guarded fn st (exec run c st)"
proof (induction c arbitrary: st)
  case (Return props)
  show ?case by (rule guarded_quiet) (simp add: since_def)
next
  case Throw
  show ?case by (rule guarded_quiet) (simp add: since_def)
next
  case (SigGet s p k)
  have "guarded fn st (bind (Proxy_get st s p) (\<lambda>v st'. exec run (k v) st'))"
  proof (rule guarded_bind)
    show "guarded fn st (Proxy_get st s p)" by (rule Proxy_get_guarded)
    show "extends st s1 \<and> reactStack_grows st s1 \<and> guarded fn s1 (exec run (k x) s1)"
      if "Proxy_get st s p = Normal x s1" for x s1
    proof -
      have fin: "final (notifyGet st (Some s) p) = Some s1"
        using that final_Proxy_get[of st s p] by simp
      show ?thesis
        using notifyGet_log(2)[OF fin] notifyGet_fields(4)[OF fin] SigGet.IH
        by (simp add: reactStack_grows_def)
    qed
    show "extends s1 s'" if "final (exec run (k x) s1) = Some s'" for x s1 s'
      using exec_rel[OF prims_ok_extends run_guarded_ok(1)[OF rg] that] .
  qed
  then show ?case by simp
next
  case (SigSet s p v c)
  have e1: "extends (log_event (Wrote (target_of s) p) st) s'"
    if "final (Proxy_set run (log_event (Wrote (target_of s) p) st) s p v) = Some s'" for s'
    using Proxy_set_rel[OF quasi_order_extends run_guarded_ok(1)[OF rg] that] store_fields(1)
    by (fastforce simp: extends_def)
  have g: "guarded fn st (Proxy_set run (log_event (Wrote (target_of s) p) st) s p v)"
  proof (rule guarded_step[OF _ _ _ e1])
    show "trace (log_event (Wrote (target_of s) p) st) = trace st @ [Wrote (target_of s) p]" by simp
    show "Wrote (target_of s) p \<noteq> Called fn" by simp
    show "reactStack (log_event (Wrote (target_of s) p) st) = reactStack st" by simp
    show "guarded fn (log_event (Wrote (target_of s) p) st)
        (Proxy_set run (log_event (Wrote (target_of s) p) st) s p v)"
      by (rule Proxy_set_guarded[OF rg])
  qed simp
  have "guarded fn st (bind (Proxy_set run (log_event (Wrote (target_of s) p) st) s p v)
      (\<lambda>ok st'. exec run c st'))"
  proof (rule guarded_bind[OF g])
    show "extends st s1 \<and> reactStack_grows st s1 \<and> guarded fn s1 (exec run c s1)"
      if "Proxy_set run (log_event (Wrote (target_of s) p) st) s p v = Normal x s1" for x s1
    proof -
      have fin: "final (exec run (SigSet s p v (Return [])) st) = Some s1" using that by simp
      show ?thesis
        using exec_rel[OF prims_ok_extends run_guarded_ok(1)[OF rg] fin]
          exec_rel[OF prims_ok_reactStack_grows run_guarded_ok(2)[OF rg] fin] SigSet.IH
        by simp
    qed
    show "extends s1 s'" if "final (exec run c s1) = Some s'" for s1 s'
      using exec_rel[OF prims_ok_extends run_guarded_ok(1)[OF rg] that] .
  qed
  then show ?case by simp
next
  case (SigHas s p k)
  have "guarded fn st (bind (Proxy_has st s p) (\<lambda>b st'. exec run (k b) st'))"
  proof (rule guarded_bind)
    show "guarded fn st (Proxy_has st s p)" by (rule Proxy_has_guarded)
    show "extends st s1 \<and> reactStack_grows st s1 \<and> guarded fn s1 (exec run (k x) s1)"
      if "Proxy_has st s p = Normal x s1" for x s1
    proof -
      have fin: "final (notifyGet st None p) = Some s1"
        using that final_Proxy_has[of st s p] by simp
      show ?thesis
        using notifyGet_log(2)[OF fin] notifyGet_fields(4)[OF fin] SigHas.IH
        by (simp add: reactStack_grows_def)
    qed
    show "extends s1 s'" if "final (exec run (k x) s1) = Some s'" for x s1 s'
      using exec_rel[OF prims_ok_extends run_guarded_ok(1)[OF rg] that] .
  qed
  then show ?case by simp
next
  case (SigDelete strict s p k)
  have e1: "extends (log_event (Wrote (target_of s) p) st) s'"
    if "final (Proxy_delete run (log_event (Wrote (target_of s) p) st) s p) = Some s'" for s'
    using Proxy_delete_rel[OF quasi_order_extends run_guarded_ok(1)[OF rg] that]
    by (auto simp: extends_def)
  have g: "guarded fn st (Proxy_delete run (log_event (Wrote (target_of s) p) st) s p)"
  proof (rule guarded_step[OF _ _ _ e1])
    show "trace (log_event (Wrote (target_of s) p) st) = trace st @ [Wrote (target_of s) p]" by simp
    show "Wrote (target_of s) p \<noteq> Called fn" by simp
    show "reactStack (log_event (Wrote (target_of s) p) st) = reactStack st" by simp
    show "guarded fn (log_event (Wrote (target_of s) p) st)
        (Proxy_delete run (log_event (Wrote (target_of s) p) st) s p)"
      by (rule Proxy_delete_guarded)
  qed simp
  have "guarded fn st (bind (Proxy_delete run (log_event (Wrote (target_of s) p) st) s p)
      (\<lambda>ok st'. if strict \<and> \<not> ok then Raise TypeError st' else exec run (k ok) st'))"
  proof (rule guarded_bind[OF g])
    show "extends st s1 \<and> reactStack_grows st s1
        \<and> guarded fn s1 (if strict \<and> \<not> x then Raise TypeError s1 else exec run (k x) s1)"
      if "Proxy_delete run (log_event (Wrote (target_of s) p) st) s p = Normal x s1" for x s1
    proof -
      have fin: "final (exec run (SigDelete False s p (\<lambda>ok. Return [])) st) = Some s1"
        using that by simp
      have "guarded fn s1 (if strict \<and> \<not> x then Raise TypeError s1 else exec run (k x) s1)"
      proof (cases "strict \<and> \<not> x")
        case True
        have "guarded fn s1 (Raise TypeError s1 :: (pname \<times> val) list res)"
          by (rule guarded_quiet) (simp add: since_def)
        then show ?thesis using True by simp
      next
        case False
        then show ?thesis using SigDelete.IH[of "k x" s1] by auto
      qed
      then show ?thesis
        using exec_rel[OF prims_ok_extends run_guarded_ok(1)[OF rg] fin]
          exec_rel[OF prims_ok_reactStack_grows run_guarded_ok(2)[OF rg] fin]
        by simp
    qed
    show "extends s1 s'"
      if "final (if strict \<and> \<not> x then Raise TypeError s1 else exec run (k x) s1) = Some s'"
      for x s1 s'
      using exec_rel[OF prims_ok_extends run_guarded_ok(1)[OF rg], of "k x" s1 s'] that
      by (cases "strict \<and> \<not> x") auto
  qed
  then show ?case by simp
next
  case (CallUpdate f k)
  have e1: "extends (log_event (Called f) st) s'"
    if "final (update_with run (log_event (Called f) st) f) = Some s'" for s'
    using update_with_rel[OF prims_ok_extends run_guarded_ok(1)[OF rg] that] .
  have g: "guarded fn st (update_with run (log_event (Called f) st) f)"
  proof (cases "f = fn")
    case True
    show ?thesis unfolding guarded_def
    proof (intro allI impI)
      fix s' assume "fn \<in> set (reactStack st)"
      then show "raised (update_with run (log_event (Called f) st) f) = Some (RecursiveInvocation fn)"
        using True by (simp add: update_with_def update_prepare_def)
    qed
  next
    case False
    show ?thesis
    proof (rule guarded_step[OF _ _ _ e1])
      show "trace (log_event (Called f) st) = trace st @ [Called f]" by simp
      show "Called f \<noteq> Called fn" using False by simp
      show "reactStack (log_event (Called f) st) = reactStack st" by simp
      show "guarded fn (log_event (Called f) st) (update_with run (log_event (Called f) st) f)"
        by (rule update_with_guarded[OF rg])
    qed simp
  qed
  have "guarded fn st (bind (update_with run (log_event (Called f) st) f)
      (\<lambda>s st'. exec run (k s) st'))"
  proof (rule guarded_bind[OF g])
    show "extends st s1 \<and> reactStack_grows st s1 \<and> guarded fn s1 (exec run (k x) s1)"
      if "update_with run (log_event (Called f) st) f = Normal x s1" for x s1
    proof -
      have fin: "final (exec run (CallUpdate f (\<lambda>out. Return [])) st) = Some s1" using that by simp
      show ?thesis
        using exec_rel[OF prims_ok_extends run_guarded_ok(1)[OF rg] fin]
          exec_rel[OF prims_ok_reactStack_grows run_guarded_ok(2)[OF rg] fin] CallUpdate.IH
        by simp
    qed
    show "extends s1 s'" if "final (exec run (k x) s1) = Some s'" for x s1 s'
      using exec_rel[OF prims_ok_extends run_guarded_ok(1)[OF rg] that] .
  qed
  then show ?case by simp
next
  case (RawGet a p k)
  then show ?case by simp
next
  case (RawSet a p v c)
  show ?case
  proof (cases "store a p v (log_event (Wrote a p) st)")
    case None
    show ?thesis by (rule guarded_quiet) (simp add: None)
  next
    case (Some s1)
    have tr: "trace s1 = trace st @ [Wrote a p]" using store_fields(1)[OF Some] by simp
    have rs: "reactStack s1 = reactStack st" using store_fields(6)[OF Some] by simp
    have "guarded fn st (exec run c s1)"
    proof (rule guarded_step[OF tr _ rs])
      show "Wrote a p \<noteq> Called fn" by simp
      show "extends s1 s'" if "final (exec run c s1) = Some s'" for s'
        using exec_rel[OF prims_ok_extends run_guarded_ok(1)[OF rg] that] .
      show "guarded fn s1 (exec run c s1)" by (rule RawSet.IH)
    qed
    then show ?thesis by (simp add: Some)
  qed
qed

lemma assign_each_guarded:
  assumes rg: "run_guarded fn run"
  shows "guarded fn st (assign_each run out kvs st)"
proof (induction kvs arbitrary: st)
  case Nil
  show ?case by (rule guarded_quiet) (simp add: since_def)
next
  case (Cons kv kvs)
  obtain k v where kv: "kv = (k, v)" by (cases kv)
  have "guarded fn st (bind (Proxy_set run st out k v)
      (\<lambda>ok st'. if ok then assign_each run out kvs st' else Raise TypeError st'))"
  proof (rule guarded_bind)
    show "guarded fn st (Proxy_set run st out k v)" by (rule Proxy_set_guarded[OF rg])
    show "extends st s1 \<and> reactStack_grows st s1
        \<and> guarded fn s1 (if x then assign_each run out kvs s1 else Raise TypeError s1)"
      if "Proxy_set run st out k v = Normal x s1" for x s1
    proof -
      have fin: "final (Proxy_set run st out k v) = Some s1" using that by simp
      have "extends st s1"
        using Proxy_set_rel[OF quasi_order_extends run_guarded_ok(1)[OF rg] fin] store_fields(1)
        by (fastforce simp: extends_def)
      moreover have "reactStack_grows st s1"
        using Proxy_set_rel[OF prims_okD(1)[OF prims_ok_reactStack_grows] run_guarded_ok(2)[OF rg] fin]
          store_fields(6)
        by (fastforce simp: reactStack_grows_def)
      moreover have "guarded fn s1 (if x then assign_each run out kvs s1 else Raise TypeError s1)"
      proof (cases x)
        case True
        then show ?thesis using Cons.IH by simp
      next
        case False
        have "guarded fn s1 (Raise TypeError s1 :: unit res)"
          by (rule guarded_quiet) (simp add: since_def)
        then show ?thesis using False by simp
      qed
      ultimately show ?thesis by simp
    qed
    show "extends s1 s'"
      if "final (if x then assign_each run out kvs s1 else Raise TypeError s1) = Some s'"
      for x s1 s'
    proof (cases x)
      case True
      then have "final (assign_each run out kvs s1) = Some s'" using that by simp
      then show ?thesis
        using assign_each_rel[OF quasi_order_extends run_guarded_ok(1)[OF rg], of out kvs s1 s']
          store_fields(1)
        by (fastforce simp: extends_def)
    next
      case False
      then show ?thesis using that by simp
    qed
  qed
  then show ?case by (simp add: kv)
qed

lemma reactor_guarded: "run_guarded fn (reactor n P)"
proof (induction n)
  case 0
  show ?case unfolding run_guarded_def guarded_def by simp
next
  case (Suc n)
  have g: "guarded fn s (reactor (Suc n) P r s)" for r s
  proof -
    have "guarded fn s (bind (enter r s)
       (\<lambda>_ st1. bind (exec (reactor n P) (P (closure_fn r)) st1)
          (\<lambda>result st'. Object_assign (reactor n P) (closure_signal r) result (leave r result st'))))"
    proof (rule guarded_bind)
      show "guarded fn s (enter r s)"
      proof (rule guarded_quiet)
        fix s' assume "final (enter r s) = Some s'"
        then show "Called fn \<notin> set (since s s')" using enter_log(2) by fastforce
      qed
      show "extends s s1 \<and> reactStack_grows s s1
          \<and> guarded fn s1 (bind (exec (reactor n P) (P (closure_fn r)) s1)
               (\<lambda>result st'. Object_assign (reactor n P) (closure_signal r) result (leave r result st')))"
        if "enter r s = Normal x s1" for x s1
      proof -
        have fin: "final (enter r s) = Some s1" using that by simp
        have inner: "guarded fn s1 (bind (exec (reactor n P) (P (closure_fn r)) s1)
               (\<lambda>result st'. Object_assign (reactor n P) (closure_signal r) result (leave r result st')))"
        proof (rule guarded_bind)
          show "guarded fn s1 (exec (reactor n P) (P (closure_fn r)) s1)"
            by (rule exec_guarded[OF Suc])
          show "extends s1 s2 \<and> reactStack_grows s1 s2
              \<and> guarded fn s2 (Object_assign (reactor n P) (closure_signal r) y (leave r y s2))"
            if ex: "exec (reactor n P) (P (closure_fn r)) s1 = Normal y s2" for y s2
          proof -
            have f2: "final (exec (reactor n P) (P (closure_fn r)) s1) = Some s2" using ex by simp
            have "guarded fn s2 (Object_assign (reactor n P) (closure_signal r) y (leave r y s2))"
            proof (rule guarded_step)
              show "trace (leave r y s2) = trace s2 @ [Merged (target_of (closure_signal r)) (map fst y)]"
                by simp
              show "Merged (target_of (closure_signal r)) (map fst y) \<noteq> Called fn" by simp
              show "reactStack (leave r y s2) = reactStack s2" by simp
              show "extends (leave r y s2) s'"
                if "final (Object_assign (reactor n P) (closure_signal r) y (leave r y s2)) = Some s'"
                for s'
                using that assign_each_rel[OF quasi_order_extends run_ok_extends,
                    of n P "closure_signal r" _ "leave r y s2" s'] store_fields(1)
                unfolding Object_assign_def by (fastforce simp: extends_def)
              show "guarded fn (leave r y s2)
                  (Object_assign (reactor n P) (closure_signal r) y (leave r y s2))"
                unfolding Object_assign_def by (rule assign_each_guarded[OF Suc])
            qed
            then show ?thesis
              using exec_extends[OF f2] exec_reactStack_grows[OF f2] by simp
          qed
          show "extends s2 s'"
            if "exec (reactor n P) (P (closure_fn r)) s1 = Normal y s2"
              "final (Object_assign (reactor n P) (closure_signal r) y (leave r y s2)) = Some s'"
            for y s2 s'
            using that(2) merge_ok_extends run_ok_extends[of n P] unfolding merge_ok_def by blast
        qed
        show ?thesis
          using enter_log(1)[OF fin] enter_fields(4)[OF fin] inner
          by (simp add: reactStack_grows_def)
      qed
      show "extends s1 s'"
        if "final (bind (exec (reactor n P) (P (closure_fn r)) s1)
               (\<lambda>result st'. Object_assign (reactor n P) (closure_signal r) result (leave r result st')))
            = Some s'" for x s1 s'
        using that
      proof (cases rule: final_bindE)
        case (raise e)
        then show ?thesis using exec_extends[of n P "P (closure_fn r)" s1 s'] by simp
      next
        case (normal y s2)
        then have "extends s1 s2" using exec_extends[of n P "P (closure_fn r)" s1 s2] by simp
        moreover have "extends s2 s'"
          using normal(2) merge_ok_extends run_ok_extends[of n P] unfolding merge_ok_def by blast
        ultimately show ?thesis by (rule extends_trans)
      qed
    qed
    then show ?thesis by simp
  qed
  show ?case
    unfolding run_guarded_def
    using g run_okD[OF run_ok_extends] run_okD[OF run_ok_reactStack_grows] by blast
qed

section \<open>C2: the recursion guard\<close>

text \<open>
  Claim C2, as the source has it. The guard stands at the entry of \<^verbatim>\<open>update\<close>:
  when user code calls \<^verbatim>\<open>update(fn)\<close> while a call \<^verbatim>\<open>update(fn)\<close> is running,
  that is, before the outer call has returned, the outer call ends with the recursion
  error that carries \<^verbatim>\<open>fn\<close>. So a reactor whose computation triggers its own re-run
  directly gets the error. A re-run that a write triggers is a call of the reactor
  closure and meets no guard.
\<close>

theorem update_guard_raises:
  assumes "final (update n P st fn) = Some st'"
    and "Called fn \<in> set (since st st')"
  shows "raised (update n P st fn) = Some (RecursiveInvocation fn)"
proof (cases "fn \<in> set (reactStack st)")
  case True
  then show ?thesis by (simp add: update_def update_with_def update_prepare_def)
next
  case False
  then obtain r s1 where prep: "update_prepare st fn = Normal r s1"
    using update_prepare_returns[where st = st and fn = fn] by auto
  have fin1: "final (update_prepare st fn) = Some s1" using prep by simp
  have on: "fn \<in> set (reactStack s1)" using fin1 by (rule update_prepare_pushes)
  have tr: "trace s1 = trace st" using fin1 by (rule update_prepare_fields(1))
  have eq: "update n P st fn = bind (reactor n P r s1) (\<lambda>_ s. Normal (closure_signal r) s)"
    using prep by (simp add: update_def update_with_def)
  have fin2: "final (reactor n P r s1) = Some st'" using assms(1) unfolding eq by simp
  have "Called fn \<in> set (since s1 st')" using assms(2) tr by (simp add: since_def)
  then have "raised (reactor n P r s1) = Some (RecursiveInvocation fn)"
    using reactor_guarded[of fn n P] on fin2 unfolding run_guarded_def guarded_def by blast
  then show ?thesis unfolding eq by simp
qed

theorem update_guard_raises_witness:
  "(\<exists>st'. final (update 1 calls_itself init 0) = Some st'
        \<and> Called 0 \<in> set (since init st'))
   \<and> raised (update 1 calls_itself init 0) = Some (RecursiveInvocation 0)
   \<and> (\<exists>st'. final (update 1 reads_and_calls_itself counter_signal 0) = Some st'
        \<and> Called 0 \<in> set (since counter_signal st')
        \<and> Tracked (Closure 0 0 (Proxy 1 1)) (Proxy 0 0) (Name ''n'') \<in> set (since counter_signal st'))
   \<and> raised (update 1 reads_and_calls_itself counter_signal 0) = Some (RecursiveInvocation 0)"
proof -
  have "final (update 1 calls_itself init 0) \<noteq> None" by code_simp
  then obtain s1 where s1: "final (update 1 calls_itself init 0) = Some s1" by blast
  have "Called 0 \<in> set (log_of init (update 1 calls_itself init 0))" by code_simp
  then have c1: "Called 0 \<in> set (since init s1)" unfolding log_of_def s1 by simp
  have r1: "raised (update 1 calls_itself init 0) = Some (RecursiveInvocation 0)"
    using update_guard_raises[OF s1 c1] .
  have "final (update 1 reads_and_calls_itself counter_signal 0) \<noteq> None" by code_simp
  then obtain s2 where s2: "final (update 1 reads_and_calls_itself counter_signal 0) = Some s2"
    by blast
  have "Called 0 \<in> set (log_of counter_signal (update 1 reads_and_calls_itself counter_signal 0))"
    by code_simp
  then have c2: "Called 0 \<in> set (since counter_signal s2)" unfolding log_of_def s2 by simp
  have "Tracked (Closure 0 0 (Proxy 1 1)) (Proxy 0 0) (Name ''n'')
      \<in> set (log_of counter_signal (update 1 reads_and_calls_itself counter_signal 0))"
    by code_simp
  then have t2: "Tracked (Closure 0 0 (Proxy 1 1)) (Proxy 0 0) (Name ''n'') \<in> set (since counter_signal s2)"
    unfolding log_of_def s2 by simp
  have r2: "raised (update 1 reads_and_calls_itself counter_signal 0) = Some (RecursiveInvocation 0)"
    using update_guard_raises[OF s2 c2] .
  show ?thesis using s1 c1 r1 s2 c2 t2 r2 by blast
qed

text \<open>
  Claim C2 as stated fails for a reactor that triggers itself through a write: the
  function reads \<^verbatim>\<open>counter.n\<close> and writes 1 when it reads 0 and 2 when it reads 1.
  Each write calls the reactor again before the outer run has returned; the body is
  entered three times, nested, and \<^verbatim>\<open>update\<close> returns the output signal with no
  error.
\<close>

theorem self_triggering_write_not_guarded:
  "returned (run_script 3 bump_until_two update_once counter_signal)
     = Some [(Name ''out'', VSig (Proxy 1 1))]
   \<and> raised (run_script 3 bump_until_two update_once counter_signal) = None
   \<and> runs_during (Closure 0 0 (Proxy 1 1)) counter_signal
        (run_script 3 bump_until_two update_once counter_signal) = 3
   \<and> value_after 0 (Name ''n'') (run_script 3 bump_until_two update_once counter_signal) = Some (VNum 2)"
  by code_simp

section \<open>C3: the two indexes of the listener graph\<close>









section \<open>C4: a write notifies exactly when the value changes\<close>




section \<open>C5: the tracker stack after a computation that throws\<close>

text \<open>
  Claim C5. The tracker stack should be empty after every top-level \<^verbatim>\<open>update\<close>,
  also when the computation throws. The closure pushes itself, calls \<^verbatim>\<open>fn\<close> and
  pops with no protection in between: on the failing input (a function that throws,
  registered from the initial state, where the stack is empty) the error reaches the
  caller and the closure is still on \<open>computeStack\<close>.
\<close>

theorem computeStack_not_restored_on_throw:
  "computeStack init = []
   \<and> raised (run_script 1 always_throws update_once init) = Some UserError
   \<and> map_option computeStack (final (run_script 1 always_throws update_once init))
       = Some [Closure 0 0 (Proxy 0 0)]"
  by code_simp

text \<open>On the path without an error the pairing of push and pop works: a call that
  returns leaves \<open>computeStack\<close> as it found it (lemma
  \<open>update_returning_restores_computeStack\<close> above).\<close>

section \<open>C6: delete\<close>

text \<open>
  Claim C6. A delete of an existing property should remove it and notify the listeners
  of that property, and no delete should raise an error. The host calls the
  \<^verbatim>\<open>deleteProperty\<close> trap with the target and the property only, so the handler's
  \<^verbatim>\<open>receiver\<close> is \<^verbatim>\<open>undefined\<close> and \<^verbatim>\<open>notifySet\<close> finds no listeners for it;
  and the trap returns \<^verbatim>\<open>undefined\<close>, which the host takes for a failed delete. On
  the failing input, \<^verbatim>\<open>s = signal({a: 1})\<close> with a reactor that reads \<^verbatim>\<open>s.a\<close> and
  is registered as its listener, \<^verbatim>\<open>delete s.a\<close> in strict code removes the property,
  runs no reactor (the one run is that of the registration, and the output keeps the
  value read then) and throws a TypeError; in sloppy code it runs no reactor and yields
  false; and \<^verbatim>\<open>delete s.b\<close> of the absent \<^verbatim>\<open>b\<close> in strict code throws a TypeError.
\<close>

theorem delete_reaches_no_listener:
  "listeners_after (Proxy 0 0) (Name ''a'') (run_script 1 reads_a update_once holds_a)
     = Some [Closure 0 0 (Proxy 1 1)]
   \<and> raised (run_script 2 reads_a (update_then_delete True (Name ''a'')) holds_a) = Some TypeError
   \<and> own_after 0 (Name ''a'') (run_script 2 reads_a (update_then_delete True (Name ''a'')) holds_a)
       = Some False
   \<and> runs_during (Closure 0 0 (Proxy 1 1)) holds_a
        (run_script 2 reads_a (update_then_delete True (Name ''a'')) holds_a) = 1
   \<and> value_after 1 (Name ''seen'')
        (run_script 2 reads_a (update_then_delete True (Name ''a'')) holds_a) = Some (VNum 1)
   \<and> returned (run_script 2 reads_a (update_then_delete False (Name ''a'')) holds_a)
       = Some [(Name ''ok'', VBool False)]
   \<and> runs_during (Closure 0 0 (Proxy 1 1)) holds_a
        (run_script 2 reads_a (update_then_delete False (Name ''a'')) holds_a) = 1
   \<and> raised (run_script 2 reads_a (update_then_delete True (Name ''b'')) holds_a) = Some TypeError"
  by code_simp

text \<open>The same holds of every signal, property and state: a delete through the proxy
  calls no reactor, whatever is registered, and its result is false, so that in strict
  code every delete throws.\<close>

lemma Proxy_delete_calls_no_listener:
  "Proxy_delete run st s p =
     Normal False
       (if getProp (heap st (target_of s)) p \<noteq> VUndef then remove (target_of s) p st else st)"
  by (simp add: Proxy_delete_def signalHandler_deleteProperty_def notifySet_def getListeners_def)

lemma strict_delete_always_raises:
  "raised (exec run (SigDelete True s p k) st) = Some TypeError"
  by (simp add: Proxy_delete_calls_no_listener)

text \<open>The guard of the trap reads the value: a property that exists and holds
  \<^verbatim>\<open>undefined\<close> is kept.\<close>

lemma delete_keeps_undefined_property:
  "hasOwn (heap undefined_property 0) (Name ''a'')
   \<and> own_after 0 (Name ''a'')
        (Proxy_delete (reactor 1 returns_empty) undefined_property (Proxy 0 0) (Name ''a''))
       = Some True"
  by code_simp

section \<open>C7: stale edges\<close>

text \<open>
  Claim C7. A reactor that read \<open>s.p\<close> on one run and not on the next should not be
  re-run by a later change of \<open>s.p\<close>. \<^verbatim>\<open>clearListeners\<close> finds the edges to remove
  with \<^verbatim>\<open>Object.keys\<close>, which lists string keys only, so an edge under a symbol is
  never removed. On the failing input the function reads \<^verbatim>\<open>s[k]\<close>, for a symbol
  \<^verbatim>\<open>k\<close>, only while \<^verbatim>\<open>flag.on\<close> is true: the first run reads it, the run that
  \<^verbatim>\<open>flag.on = false\<close> triggers does not, the reactor is still a listener of it
  afterwards, and the write \<^verbatim>\<open>s[k] = 1\<close> runs the reactor a third time. With the
  string key \<^verbatim>\<open>p\<close> in the place of the symbol the edge is removed and the write runs
  nothing.
\<close>

theorem symbol_edge_survives_rerun:
  "log_of flag_and_signal
     (run_script 2 (reads_while_on (Symbol 0)) (switch_off_then_write (Symbol 0)) flag_and_signal)
     = [Called 0, Ran (Closure 0 0 (Proxy 2 2)),
        Tracked (Closure 0 0 (Proxy 2 2)) (Proxy 0 0) (Name ''on''),
        Tracked (Closure 0 0 (Proxy 2 2)) (Proxy 1 1) (Symbol 0), Merged 2 [],
        Wrote 0 (Name ''on''), Ran (Closure 0 0 (Proxy 2 2)),
        Tracked (Closure 0 0 (Proxy 2 2)) (Proxy 0 0) (Name ''on''), Merged 2 [],
        Wrote 1 (Symbol 0), Ran (Closure 0 0 (Proxy 2 2)),
        Tracked (Closure 0 0 (Proxy 2 2)) (Proxy 0 0) (Name ''on''), Merged 2 []]
   \<and> returned
       (run_script 2 (reads_while_on (Symbol 0)) (switch_off_then_write (Symbol 0)) flag_and_signal)
       = Some []
   \<and> runs_during (Closure 0 0 (Proxy 2 2)) flag_and_signal
       (run_script 2 (reads_while_on (Symbol 0)) (switch_off_then_write (Symbol 0)) flag_and_signal)
       = 3
   \<and> listeners_after (Proxy 1 1) (Symbol 0)
       (reactor 1 (reads_while_on (Symbol 0)) (Closure 0 0 (Proxy 2 2)) (flag_cleared (Symbol 0)))
       = Some [Closure 0 0 (Proxy 2 2)]
   \<and> runs_during (Closure 0 0 (Proxy 2 2)) flag_and_signal
       (run_script 2 (reads_while_on (Name ''p'')) (switch_off_then_write (Name ''p'')) flag_and_signal)
       = 2
   \<and> listeners_after (Proxy 1 1) (Name ''p'')
       (reactor 1 (reads_while_on (Name ''p'')) (Closure 0 0 (Proxy 2 2)) (flag_cleared (Name ''p'')))
       = Some []"
  by code_simp

text \<open>For a string key the pruning works in every state the module reaches (lemma
  \<open>clear_prunes_string_keys\<close>), and for a symbol the clear leaves the listeners as
  they were (lemma \<open>clear_keeps_symbol_keys\<close>).\<close>

section \<open>C8: get and has\<close>

text \<open>
  Claim C8. Both reads should notify the tracker with the signal and the property and
  then forward the result. The host calls the \<^verbatim>\<open>has\<close> trap with the target and the
  property only, so inside a reactor \<^verbatim>\<open>notifyGet\<close> passes \<^verbatim>\<open>undefined\<close> on to
  \<^verbatim>\<open>setListeners\<close>, whose \<^verbatim>\<open>listenersMap.set\<close> rejects it. On the failing input,
  \<^verbatim>\<open>s = signal({a: 1})\<close> and a function that asks whether \<^verbatim>\<open>'a' in s\<close>, the
  registration throws a TypeError before the function has its answer, while the same
  test outside every reactor returns true. The dictionaries of the module are plain
  objects, so a \<^verbatim>\<open>get\<close> inside a reactor under a name that \<^verbatim>\<open>Object.prototype\<close>
  defines throws as well, where outside it returns the inherited value.
\<close>

theorem has_throws_inside_reactor:
  "raised (run_script 1 asks_for_a update_once holds_a) = Some TypeError
   \<and> log_of holds_a (run_script 1 asks_for_a update_once holds_a)
       = [Called 0, Ran (Closure 0 0 (Proxy 1 1))]
   \<and> hasOwn (heap holds_a 0) (Name ''a'')
   \<and> returned (exec (reactor 1 asks_for_a) (asks_for_a 0) holds_a)
       = Some [(Name ''found'', VBool True)]
   \<and> raised (run_script 1 reads_toString update_once holds_a) = Some TypeError
   \<and> returned (exec (reactor 1 reads_toString) (reads_toString 0) holds_a)
       = Some [(Name ''method'', VHost ''toString'')]"
  by code_simp

text \<open>The same holds in every state: inside a reactor the membership test throws, and
  outside it answers whether the target has the property as its own, so that an
  inherited property is reported absent. What \<^verbatim>\<open>get\<close> returns, when it returns, is
  the value of the target, own or inherited.\<close>

lemma Proxy_has_inside_reactor_raises:
  assumes "computeStack st \<noteq> []"
  shows "Proxy_has st s p = Raise TypeError st"
  using assms
  by (simp add: Proxy_has_def signalHandler_has_def notifyGet_def Let_def list_case_nonempty)

lemma Proxy_has_outside:
  assumes "computeStack st = []"
  shows "Proxy_has st s p = Normal (hasOwn (heap st (target_of s)) p) st"
  using assms by (simp add: Proxy_has_def signalHandler_has_def notifyGet_def)

lemma has_misses_inherited:
  "hasProperty (heap holds_a 0) (Name ''toString'')
   \<and> returned (Proxy_has holds_a (Proxy 0 0) (Name ''toString'')) = Some False"
  by code_simp


section \<open>C9: objects stored in a signal\<close>









section \<open>C10: the merge keeps the keys a result lacks\<close>

text \<open>
  Claim C10. During a run of a reactor, with everything it triggers, an own property of
  an object that existed before keeps its value (or stays absent) unless user code wrote
  or deleted that property, or a reactor with that object as output merged a result that
  has the property as a key. For the output signal of the reactor itself: a key that is
  absent from the result of the run, and of the runs nested in it, stays on the output
  object with its previous value.
\<close>

theorem merge_keeps_absent_keys:
  assumes "final (reactor n P r st) = Some st'"
    and "a < nobjs st"
    and "\<forall>e \<in> set (since st st'). \<not> touches a k e"
  shows "map_of (own (heap st' a)) k = map_of (own (heap st a)) k"
proof -
  have "frame st st'" using run_okD[OF run_ok_frame assms(1)] .
  then show ?thesis using assms(2,3) unfolding frame_def by blast
qed

theorem merge_keeps_absent_keys_witness:
  "1 < nobjs flag_off
   \<and> map_of (own (heap flag_off 1)) (Name ''b'') = Some (VNum 2)
   \<and> value_after 1 (Name ''a'') (reactor 1 fewer_keys (Closure 0 0 (Proxy 1 1)) flag_off) = Some (VNum 3)
   \<and> (\<exists>st'. final (reactor 1 fewer_keys (Closure 0 0 (Proxy 1 1)) flag_off) = Some st'
         \<and> \<not> (\<exists>e \<in> set (since flag_off st'). touches 1 (Name ''b'') e)
         \<and> map_of (own (heap st' 1)) (Name ''b'') = Some (VNum 2))"
proof -
  have n: "1 < nobjs flag_off" by code_simp
  have b: "map_of (own (heap flag_off 1)) (Name ''b'') = Some (VNum 2)" by code_simp
  have a: "value_after 1 (Name ''a'') (reactor 1 fewer_keys (Closure 0 0 (Proxy 1 1)) flag_off) = Some (VNum 3)"
    by code_simp
  have "returned (reactor 1 fewer_keys (Closure 0 0 (Proxy 1 1)) flag_off) = Some ()"
    by code_simp
  then obtain st' where st': "reactor 1 fewer_keys (Closure 0 0 (Proxy 1 1)) flag_off = Normal () st'"
    by (cases "reactor 1 fewer_keys (Closure 0 0 (Proxy 1 1)) flag_off") auto
  have fin: "final (reactor 1 fewer_keys (Closure 0 0 (Proxy 1 1)) flag_off) = Some st'"
    unfolding st' by simp
  have "\<forall>e \<in> set (log_of flag_off (reactor 1 fewer_keys (Closure 0 0 (Proxy 1 1)) flag_off)).
      \<not> touches 1 (Name ''b'') e"
    by code_simp
  then have untouched: "\<forall>e \<in> set (since flag_off st'). \<not> touches 1 (Name ''b'') e"
    unfolding log_of_def st' by simp
  have "map_of (own (heap st' 1)) (Name ''b'') = map_of (own (heap flag_off 1)) (Name ''b'')"
    using merge_keeps_absent_keys[OF fin n untouched] .
  then show ?thesis using n b a fin untouched by auto
qed

end
